theory Spec2Isabelle
  imports Main "HOL-Library.AList"
begin

section \<open>JavaScript values and the JSON text encoding\<close>

text \<open>
  The client moves values of TypeScript type \<open>unknown\<close> that travel as JSON text. They
  are modelled by the JSON-representable fragment of JavaScript values: \<open>null\<close>,
  booleans, integral numbers, strings, arrays and plain objects. An object is the list of
  its own properties in enumeration order. A character is one code unit below 256; the
  socket's UTF-8 encoding on write and decoding on read are inverse to each other on the
  text \<open>JSON.stringify\<close> produces and are not modelled.
\<close>

datatype json =
    JNull
  | JBool bool
  | JNum int
  | JStr string
  | JArr "json list"
  | JObj "(string \<times> json) list"

definition QUOTE :: char where
  "QUOTE = CHR 0x22"

definition BACKSLASH :: char where
  "BACKSLASH = CHR 0x5C"

subsection \<open>\<open>JSON.stringify\<close>\<close>

text \<open>
  \<open>JSON.stringify(value)\<close> without indentation, after ECMA-262 (SerializeJSONProperty,
  QuoteJSONString, Number::toString on integers of magnitude below \<open>10^21\<close>).
\<close>

definition digit_char :: "nat \<Rightarrow> char" where
  "digit_char n = ''0123456789abcdef'' ! n"

fun nat_digits :: "nat \<Rightarrow> string" where
  "nat_digits n = (if n < 10 then [digit_char n] else nat_digits (n div 10) @ [digit_char (n mod 10)])"

declare nat_digits.simps [simp del]

definition Number_toString :: "int \<Rightarrow> string" where
  "Number_toString i = (if i < 0 then CHR ''-'' # nat_digits (nat (- i)) else nat_digits (nat i))"

definition escape_char :: "char \<Rightarrow> string" where
  "escape_char c =
     (if c = CHR 0x08 then [BACKSLASH, CHR ''b'']
      else if c = CHR 0x09 then [BACKSLASH, CHR ''t'']
      else if c = CHR 0x0A then [BACKSLASH, CHR ''n'']
      else if c = CHR 0x0C then [BACKSLASH, CHR ''f'']
      else if c = CHR 0x0D then [BACKSLASH, CHR ''r'']
      else if c = QUOTE then [BACKSLASH, QUOTE]
      else if c = BACKSLASH then [BACKSLASH, BACKSLASH]
      else if (of_char c :: nat) < 32
        then [BACKSLASH, CHR ''u'', CHR ''0'', CHR ''0'',
              digit_char (of_char c div 16), digit_char (of_char c mod 16)]
      else [c])"

definition QuoteJSONString :: "string \<Rightarrow> string" where
  "QuoteJSONString s = QUOTE # concat (map escape_char s) @ [QUOTE]"

fun join_commas :: "string list \<Rightarrow> string" where
  "join_commas [] = []"
| "join_commas [x] = x"
| "join_commas (x # y # ys) = x @ CHR '','' # join_commas (y # ys)"

fun JSON_stringify :: "json \<Rightarrow> string" where
  "JSON_stringify JNull = ''null''"
| "JSON_stringify (JBool b) = (if b then ''true'' else ''false'')"
| "JSON_stringify (JNum i) = Number_toString i"
| "JSON_stringify (JStr s) = QuoteJSONString s"
| "JSON_stringify (JArr vs) = CHR ''['' # join_commas (map JSON_stringify vs) @ '']''"
| "JSON_stringify (JObj kvs) =
     CHR ''{'' # join_commas (map (\<lambda>kv. QuoteJSONString (fst kv) @ CHR '':'' # JSON_stringify (snd kv)) kvs) @ ''}''"

subsection \<open>\<open>JSON.parse\<close>\<close>

text \<open>
  \<open>JSON.parse(text)\<close> after the JSON grammar of ECMA-404: white space between tokens,
  the three literals, numbers, strings with their escapes, arrays and objects. A
  \<open>SyntaxError\<close> is the value \<open>None\<close>. Two things lie outside the modelled fragment and
  are answered \<open>None\<close> as well: a number with a fraction or an exponent, and a
  \<open>\u\<close> escape of a code unit above 255. A repeated key keeps the place of its first
  occurrence and the value of its last, as CreateDataProperty does.
\<close>

definition is_ws :: "char \<Rightarrow> bool" where
  "is_ws c = (c = CHR '' '' \<or> c = CHR 0x09 \<or> c = CHR 0x0A \<or> c = CHR 0x0D)"

definition skip_ws :: "string \<Rightarrow> string" where
  "skip_ws = dropWhile is_ws"

definition is_digit :: "char \<Rightarrow> bool" where
  "is_digit c = (48 \<le> (of_char c :: nat) \<and> (of_char c :: nat) \<le> 57)"

definition hex_val :: "char \<Rightarrow> nat option" where
  "hex_val c =
     (let n = (of_char c :: nat) in
      if 48 \<le> n \<and> n \<le> 57 then Some (n - 48)
      else if 97 \<le> n \<and> n \<le> 102 then Some (n - 87)
      else if 65 \<le> n \<and> n \<le> 70 then Some (n - 55)
      else None)"

definition hex4 :: "char \<Rightarrow> char \<Rightarrow> char \<Rightarrow> char \<Rightarrow> nat option" where
  "hex4 a b c d =
     (case (hex_val a, hex_val b, hex_val c, hex_val d) of
        (Some w, Some x, Some y, Some z) \<Rightarrow> Some (((w * 16 + x) * 16 + y) * 16 + z)
      | _ \<Rightarrow> None)"

definition unescape :: "char \<Rightarrow> char option" where
  "unescape e =
     (if e = QUOTE then Some QUOTE
      else if e = BACKSLASH then Some BACKSLASH
      else if e = CHR ''/'' then Some (CHR ''/'')
      else if e = CHR ''b'' then Some (CHR 0x08)
      else if e = CHR ''f'' then Some (CHR 0x0C)
      else if e = CHR ''n'' then Some (CHR 0x0A)
      else if e = CHR ''r'' then Some (CHR 0x0D)
      else if e = CHR ''t'' then Some (CHR 0x09)
      else None)"

definition cons_fst :: "'a \<Rightarrow> ('a list \<times> 'b) option \<Rightarrow> ('a list \<times> 'b) option" where
  "cons_fst x r = (case r of None \<Rightarrow> None | Some (xs, rest) \<Rightarrow> Some (x # xs, rest))"

text \<open>The characters of a string token after its opening quote, up to the closing one.\<close>

fun parse_chars :: "string \<Rightarrow> (string \<times> string) option" where
  "parse_chars [] = None"
| "parse_chars (c # cs) =
     (if c = QUOTE then Some ([], cs)
      else if c = BACKSLASH then
        (case cs of
           [] \<Rightarrow> None
         | e # r \<Rightarrow>
             if e = CHR ''u'' then
               (case r of
                  h1 # h2 # h3 # h4 # r' \<Rightarrow>
                    (case hex4 h1 h2 h3 h4 of
                       None \<Rightarrow> None
                     | Some n \<Rightarrow> if n < 256 then cons_fst (char_of n) (parse_chars r') else None)
                | _ \<Rightarrow> None)
             else
               (case unescape e of
                  None \<Rightarrow> None
                | Some x \<Rightarrow> cons_fst x (parse_chars r)))
      else if (of_char c :: nat) < 32 then None
      else cons_fst c (parse_chars cs))"

definition digits_val :: "string \<Rightarrow> nat" where
  "digits_val ds = foldl (\<lambda>a c. 10 * a + (of_char c - 48)) 0 ds"

definition parse_number :: "string \<Rightarrow> (json \<times> string) option" where
  "parse_number cs =
     (let neg = (cs \<noteq> [] \<and> hd cs = CHR ''-'');
          ds = (if neg then tl cs else cs);
          digs = takeWhile is_digit ds;
          rest = dropWhile is_digit ds
      in if digs = [] \<or> (1 < length digs \<and> hd digs = CHR ''0'') then None
         else if rest \<noteq> [] \<and> (hd rest = CHR ''.'' \<or> hd rest = CHR ''e'' \<or> hd rest = CHR ''E'') then None
         else Some (JNum (if neg then - int (digits_val digs) else int (digits_val digs)), rest))"

definition object_of_members :: "(string \<times> json) list \<Rightarrow> (string \<times> json) list" where
  "object_of_members kvs = foldl (\<lambda>obj kv. AList.update (fst kv) (snd kv) obj) [] kvs"

function parse_value :: "string \<Rightarrow> (json \<times> string) option"
  and parse_elems :: "string \<Rightarrow> (json list \<times> string) option"
  and parse_members :: "string \<Rightarrow> ((string \<times> json) list \<times> string) option"
where
  "parse_value cs =
     (case skip_ws cs of
        [] \<Rightarrow> None
      | c # r \<Rightarrow>
          if c = CHR ''['' then
            (case skip_ws r of
               [] \<Rightarrow> None
             | d # r' \<Rightarrow>
                 if d = CHR '']'' then Some (JArr [], r')
                 else (case parse_elems (d # r') of
                         None \<Rightarrow> None
                       | Some (vs, rest) \<Rightarrow> Some (JArr vs, rest)))
          else if c = CHR ''{'' then
            (case skip_ws r of
               [] \<Rightarrow> None
             | d # r' \<Rightarrow>
                 if d = CHR ''}'' then Some (JObj [], r')
                 else (case parse_members (d # r') of
                         None \<Rightarrow> None
                       | Some (kvs, rest) \<Rightarrow> Some (JObj (object_of_members kvs), rest)))
          else if c = QUOTE then
            (case parse_chars r of
               None \<Rightarrow> None
             | Some (s, rest) \<Rightarrow> Some (JStr s, rest))
          else if take 4 (c # r) = ''null'' then Some (JNull, drop 4 (c # r))
          else if take 4 (c # r) = ''true'' then Some (JBool True, drop 4 (c # r))
          else if take 5 (c # r) = ''false'' then Some (JBool False, drop 5 (c # r))
          else parse_number (c # r))"
| "parse_elems cs =
     (case parse_value cs of
        None \<Rightarrow> None
      | Some (v, r) \<Rightarrow>
          (case skip_ws r of
             [] \<Rightarrow> None
           | c # r' \<Rightarrow>
               if c = CHR '']'' then Some ([v], r')
               else if c = CHR '','' \<and> length r' < length cs then cons_fst v (parse_elems r')
               else None))"
| "parse_members cs =
     (case skip_ws cs of
        [] \<Rightarrow> None
      | q # r \<Rightarrow>
          if q \<noteq> QUOTE then None
          else
            (case parse_chars r of
               None \<Rightarrow> None
             | Some (k, r1) \<Rightarrow>
                 (case skip_ws r1 of
                    [] \<Rightarrow> None
                  | c # r2 \<Rightarrow>
                      if c \<noteq> CHR '':'' \<or> \<not> length r2 < length cs then None
                      else
                        (case parse_value r2 of
                           None \<Rightarrow> None
                         | Some (v, r3) \<Rightarrow>
                             (case skip_ws r3 of
                                [] \<Rightarrow> None
                              | e # r4 \<Rightarrow>
                                  if e = CHR ''}'' then Some ([(k, v)], r4)
                                  else if e = CHR '','' \<and> length r4 < length cs
                                    then cons_fst (k, v) (parse_members r4)
                                  else None)))))"
  by pat_completeness auto

termination
proof (relation "measure (\<lambda>x. case x of
          Inl cs \<Rightarrow> 2 * length cs
        | Inr (Inl cs) \<Rightarrow> 2 * length cs + 1
        | Inr (Inr cs) \<Rightarrow> 2 * length cs + 1)")
  show "wf (measure (\<lambda>x. case x of
          Inl cs \<Rightarrow> 2 * length cs
        | Inr (Inl cs) \<Rightarrow> 2 * length cs + 1
        | Inr (Inr cs) \<Rightarrow> 2 * length cs + 1))"
    by simp
next
  fix cs c r d r'
  assume a: "skip_ws cs = c # r" "skip_ws r = d # r'"
  have "length (skip_ws cs) \<le> length cs" "length (skip_ws r) \<le> length r"
    by (simp_all add: skip_ws_def length_dropWhile_le)
  with a show "(Inr (Inl (d # r')), Inl cs) \<in> measure (\<lambda>x. case x of
          Inl cs \<Rightarrow> 2 * length cs
        | Inr (Inl cs) \<Rightarrow> 2 * length cs + 1
        | Inr (Inr cs) \<Rightarrow> 2 * length cs + 1)"
    by simp
  from a \<open>length (skip_ws cs) \<le> length cs\<close> \<open>length (skip_ws r) \<le> length r\<close>
  show "(Inr (Inr (d # r')), Inl cs) \<in> measure (\<lambda>x. case x of
          Inl cs \<Rightarrow> 2 * length cs
        | Inr (Inl cs) \<Rightarrow> 2 * length cs + 1
        | Inr (Inr cs) \<Rightarrow> 2 * length cs + 1)"
    by simp
qed simp_all

declare parse_value.simps [simp del] parse_elems.simps [simp del] parse_members.simps [simp del]

definition JSON_parse :: "string \<Rightarrow> json option" where
  "JSON_parse text =
     (case parse_value text of
        None \<Rightarrow> None
      | Some (v, rest) \<Rightarrow> if skip_ws rest = [] then Some v else None)"


section \<open>Errors and external collaborators\<close>

text \<open>
  The values the client throws, rejects with or logs. \<open>clients/errors.ts\<close> is not part
  of the sources at hand; the constructors carry the arguments the client passes to each
  error class. A response is named by the message id of its request.
\<close>

datatype js_error =
    AssertionError string
  | ConnectionRefusedError
  | ConnectionLostError string
  | RequestTimeoutError int nat string
  | RequestError int string string "string option"
  | ValidationError string
  | SyntaxError
  | SystemError string
  | UnhandledError json
  | TypeError string
  | Raw json

text \<open>
  Modelled from the spec: the class hierarchy of \<open>clients/errors.ts\<close>, which is missing.
  The transport's \<open>connect()\<close> "succeeds or fails with ConnectionError", and connection
  refused and connection lost are the named connection errors; so
  \<open>e instanceof ConnectionError\<close> holds of these two classes and of no other value.
\<close>

definition instanceof_ConnectionError :: "js_error \<Rightarrow> bool" where
  "instanceof_ConnectionError e =
     (case e of ConnectionRefusedError \<Rightarrow> True | ConnectionLostError _ \<Rightarrow> True | _ \<Rightarrow> False)"

text \<open>A value that may be \<open>undefined\<close> (\<open>None\<close>).\<close>

type_synonym unknown = "json option"

text \<open>The pair \<open>{ result, error }\<close> that \<open>YupUtils.tryValidate\<close> answers.\<close>

datatype 'a validation = Validation (v_result: "'a option") (v_error: "js_error option")

text \<open>\<open>throw error\<close>, where \<open>error\<close> may be \<open>null\<close>.\<close>

definition thrown :: "js_error option \<Rightarrow> js_error" where
  "thrown err = (case err of None \<Rightarrow> Raw JNull | Some e \<Rightarrow> e)"

record ipc_response =
  r_id :: int
  r_status :: int
  r_data :: unknown

record ipc_stream =
  s_id :: int
  s_data :: unknown

record ipc_error =
  e_code :: string
  e_message :: string
  e_stack :: "string option"

text \<open>
  The functions the client imports from modules that are not among the sources
  (\<open>rpc/adapters\<close>, \<open>rpc/response\<close>, \<open>utils\<close>) are parameters of the model:
  the three schemas as \<open>YupUtils.tryValidate\<close> applies them, the test
  \<open>isResponseError\<close> as a predicate on the response's status, and the two tests of
  \<open>ErrorUtils\<close> on a socket error.
\<close>

record collaborators =
  IpcResponseSchema :: "json \<Rightarrow> ipc_response validation"
  IpcStreamSchema :: "json \<Rightarrow> ipc_stream validation"
  IpcErrorSchema :: "unknown \<Rightarrow> ipc_error validation"
  isResponseError :: "int \<Rightarrow> bool"
  isConnectRefusedError :: "js_error \<Rightarrow> bool"
  isNoEntityError :: "js_error \<Rightarrow> bool"

section \<open>The client's state\<close>

text \<open>
  \<open>PromiseUtils.split\<close> yields a promise with its \<open>resolve\<close> and \<open>reject\<close>; a
  promise settles at most once and later calls change nothing.
\<close>

datatype promise = Pending | Fulfilled unknown | Rejected js_error

definition promise_settle :: "promise \<Rightarrow> promise \<Rightarrow> promise" where
  "promise_settle outcome p = (case p of Pending \<Rightarrow> outcome | _ \<Rightarrow> p)"

text \<open>
  Modelled from the spec: \<open>Stream.write\<close> and \<open>Stream.close\<close> of \<open>rpc/stream\<close>,
  which is missing. A stream is an ordered sequence of partial values that is explicitly
  closed; closing is idempotent and a write after the close is ignored.
\<close>

record stream_obj =
  st_values :: "unknown list"
  st_closed :: bool

definition Stream_write :: "unknown \<Rightarrow> stream_obj \<Rightarrow> stream_obj" where
  "Stream_write v st = (if st_closed st then st else st\<lparr>st_values := st_values st @ [v]\<rparr>)"

definition Stream_close :: "stream_obj \<Rightarrow> stream_obj" where
  "Stream_close st = st\<lparr>st_closed := True\<rparr>"

text \<open>
  A timer made by \<open>setTimeout\<close>: the delay, the route its callback has captured, and
  whether it is still due (neither run nor cleared).
\<close>

record timer =
  t_ms :: nat
  t_route :: string
  t_active :: bool

text \<open>
  An entry of \<open>this.pending\<close>. The promise, the stream, the response and the timer of
  the request with message id \<open>i\<close> are the heap objects at address \<open>i\<close>. The closures
  \<open>resolveRequest\<close> and \<open>rejectRequest\<close> of the entry are given by the variables they
  capture: \<open>messageId\<close>, and \<open>timeout\<close> and \<open>stream\<close> which the entry holds as well.
\<close>

record pending_request =
  response :: int
  stream :: int
  timeout :: "int option"
  messageId :: int
  type :: string

text \<open>The socket \<open>this.client\<close>: its listeners, as (event, handler) pairs, and what was written to it.\<close>

record socket =
  listeners :: "(string \<times> string) list"
  written :: "string list"

text \<open>
  An \<open>IronfishTcpClient\<close> with the fields it inherits from \<open>IronfishRpcClient\<close>, the
  heap objects of its requests, and what it has done to the outside: \<open>settled\<close> is the
  trace of the calls of a promise's \<open>resolve\<close> or \<open>reject\<close>, \<open>unhandled\<close> the
  rejections of promises that nothing handles, \<open>closes\<close> the number of \<open>onClose.emit()\<close>.
  \<open>this.pending\<close> is a \<open>Map\<close>: an association list in insertion order.
\<close>

record tcp_client =
  host :: string
  port :: nat
  client :: "socket option"
  isConnected :: bool
  timeoutMs :: "nat option"
  messageIds :: int
  pending :: "(int \<times> pending_request) list"
  promises :: "int \<rightharpoonup> promise"
  streams :: "int \<rightharpoonup> stream_obj"
  statuses :: "int \<rightharpoonup> int"
  timers :: "int \<rightharpoonup> timer"
  settled :: "(int \<times> promise) list"
  unhandled :: "js_error list"
  closes :: nat

text \<open>The constructor: the socket exists from here on, unconnected; \<open>REQUEST_TIMEOUT_MS\<close> is \<open>null\<close>.\<close>

definition IronfishTcpClient :: "string \<Rightarrow> nat \<Rightarrow> tcp_client" where
  "IronfishTcpClient h p =
     \<lparr> host = h, port = p,
       client = Some \<lparr> listeners = [], written = [] \<rparr>,
       isConnected = False,
       timeoutMs = None,
       messageIds = 0,
       pending = [],
       promises = Map.empty, streams = Map.empty, statuses = Map.empty, timers = Map.empty,
       settled = [], unhandled = [], closes = 0 \<rparr>"

section \<open>The request multiplexer (\<open>IronfishRpcClient\<close>)\<close>

definition client_on :: "string \<Rightarrow> string \<Rightarrow> tcp_client \<Rightarrow> tcp_client" where
  "client_on ev h s =
     s\<lparr>client := map_option (\<lambda>c. c\<lparr>listeners := listeners c @ [(ev, h)]\<rparr>) (client s)\<rparr>"

definition client_off :: "string \<Rightarrow> string \<Rightarrow> tcp_client \<Rightarrow> tcp_client" where
  "client_off ev h s =
     s\<lparr>client := map_option (\<lambda>c. c\<lparr>listeners := remove1 (ev, h) (listeners c)\<rparr>) (client s)\<rparr>"

definition client_write :: "string \<Rightarrow> tcp_client \<Rightarrow> tcp_client" where
  "client_write bytes s =
     s\<lparr>client := map_option (\<lambda>c. c\<lparr>written := written c @ [bytes]\<rparr>) (client s)\<rparr>"

definition clearTimeout :: "int \<Rightarrow> tcp_client \<Rightarrow> tcp_client" where
  "clearTimeout t s =
     s\<lparr>timers := (case timers s t of
                     None \<Rightarrow> timers s
                   | Some tm \<Rightarrow> (timers s)(t \<mapsto> tm\<lparr>t_active := False\<rparr>))\<rparr>"

definition stream_close :: "int \<Rightarrow> tcp_client \<Rightarrow> tcp_client" where
  "stream_close a s =
     s\<lparr>streams := (case streams s a of
                      None \<Rightarrow> streams s
                    | Some st \<Rightarrow> (streams s)(a \<mapsto> Stream_close st))\<rparr>"

definition stream_write :: "int \<Rightarrow> unknown \<Rightarrow> tcp_client \<Rightarrow> tcp_client" where
  "stream_write a v s =
     s\<lparr>streams := (case streams s a of
                      None \<Rightarrow> streams s
                    | Some st \<Rightarrow> (streams s)(a \<mapsto> Stream_write v st))\<rparr>"

text \<open>A call of the \<open>resolve\<close> or \<open>reject\<close> that \<open>PromiseUtils.split\<close> returned for request \<open>a\<close>.\<close>

definition settle :: "int \<Rightarrow> promise \<Rightarrow> tcp_client \<Rightarrow> tcp_client" where
  "settle a outcome s =
     s\<lparr>promises := (case promises s a of
                       None \<Rightarrow> promises s
                     | Some p \<Rightarrow> (promises s)(a \<mapsto> promise_settle outcome p)),
       settled := settled s @ [(a, outcome)]\<rparr>"

text \<open>
  The closures \<open>resolveRequest\<close> and \<open>rejectRequest\<close> of \<open>request()\<close>: delete the entry,
  clear the timer if there is one, close the stream, settle the promise.
\<close>

definition resolveRequest :: "int \<Rightarrow> int option \<Rightarrow> int \<Rightarrow> unknown \<Rightarrow> tcp_client \<Rightarrow> tcp_client" where
  "resolveRequest mid tmo strm v s =
     (let s1 = s\<lparr>pending := AList.delete mid (pending s)\<rparr>;
          s2 = (case tmo of None \<Rightarrow> s1 | Some t \<Rightarrow> clearTimeout t s1);
          s3 = stream_close strm s2
      in settle mid (Fulfilled v) s3)"

definition rejectRequest :: "int \<Rightarrow> int option \<Rightarrow> int \<Rightarrow> js_error \<Rightarrow> tcp_client \<Rightarrow> tcp_client" where
  "rejectRequest mid tmo strm e s =
     (let s1 = s\<lparr>pending := AList.delete mid (pending s)\<rparr>;
          s2 = (case tmo of None \<Rightarrow> s1 | Some t \<Rightarrow> clearTimeout t s1);
          s3 = stream_close strm s2
      in settle mid (Rejected e) s3)"

text \<open>\<open>entry.resolve(v)\<close> and \<open>entry.reject(e)\<close> for an entry of the table.\<close>

definition pending_resolve :: "pending_request \<Rightarrow> unknown \<Rightarrow> tcp_client \<Rightarrow> tcp_client" where
  "pending_resolve p v s = resolveRequest (messageId p) (timeout p) (stream p) v s"

definition pending_reject :: "pending_request \<Rightarrow> js_error \<Rightarrow> tcp_client \<Rightarrow> tcp_client" where
  "pending_reject p e s = rejectRequest (messageId p) (timeout p) (stream p) e s"

text \<open>
  The callback given to \<open>setTimeout\<close> in \<open>request()\<close>, with the variables it captured.
  Its \<open>response\<close> was assigned before \<open>request()\<close> returned, so it is not \<open>null\<close>
  when a timer runs.
\<close>

definition onTimeout :: "int \<Rightarrow> nat \<Rightarrow> string \<Rightarrow> tcp_client \<Rightarrow> tcp_client" where
  "onTimeout mid ms route s =
     (case map_of (pending s) mid of
        None \<Rightarrow> s
      | Some message \<Rightarrow> pending_reject message (RequestTimeoutError mid ms route) s)"

text \<open>\<open>options.timeoutMs\<close>: absent, \<open>null\<close>, or a number.\<close>

datatype timeout_option = Undefined | Null | Ms nat

definition NODE_IPC_DELIMITER :: char where
  "NODE_IPC_DELIMITER = CHR 0x0C"

text \<open>
  \<open>IronfishTcpClient.send\<close>. A property whose value is \<open>undefined\<close> is left out by
  \<open>JSON.stringify\<close>.
\<close>

definition request_message :: "int \<Rightarrow> string \<Rightarrow> unknown \<Rightarrow> json" where
  "request_message mid route data =
     JObj [(''type'', JStr ''message''),
           (''data'', JObj ([(''mid'', JNum mid), (''type'', JStr route)]
                            @ (case data of None \<Rightarrow> [] | Some d \<Rightarrow> [(''data'', d)])))]"

definition framed :: "json \<Rightarrow> string" where
  "framed message = JSON_stringify message @ [NODE_IPC_DELIMITER]"

definition send :: "int \<Rightarrow> string \<Rightarrow> unknown \<Rightarrow> tcp_client \<Rightarrow> tcp_client" where
  "send mid route data s = client_write (framed (request_message mid route data)) s"

text \<open>
  \<open>IronfishRpcClient.request\<close>. \<open>Assert.isNotNull\<close> throws when \<open>this.client\<close> is
  \<open>null\<close>; otherwise the call returns the response, named by its message id.
\<close>

definition request :: "string \<Rightarrow> unknown \<Rightarrow> timeout_option \<Rightarrow> tcp_client \<Rightarrow> js_error + (int \<times> tcp_client)" where
  "request route data options s =
     (case client s of
        None \<Rightarrow> Inl (AssertionError ''Connect first using connect()'')
      | Some _ \<Rightarrow>
          let mid = messageIds s + 1;
              tms = (case options of Undefined \<Rightarrow> timeoutMs s | Null \<Rightarrow> None | Ms t \<Rightarrow> Some t);
              s1 = s\<lparr>messageIds := mid,
                     promises := (promises s)(mid \<mapsto> Pending),
                     streams := (streams s)(mid \<mapsto> \<lparr>st_values = [], st_closed = False\<rparr>)\<rparr>;
              s2 = (case tms of
                      None \<Rightarrow> s1
                    | Some ms \<Rightarrow> s1\<lparr>timers := (timers s1)(mid \<mapsto> \<lparr>t_ms = ms, t_route = route, t_active = True\<rparr>)\<rparr>);
              tmo = (case tms of None \<Rightarrow> None | Some _ \<Rightarrow> Some mid);
              entry = \<lparr>response = mid, stream = mid, timeout = tmo, messageId = mid, type = route\<rparr>;
              s3 = s2\<lparr>pending := AList.update mid entry (pending s2)\<rparr>
          in Inr (mid, send mid route data s3))"

text \<open>
  \<open>IronfishRpcClient.onDisconnect\<close>. Each entry's \<open>reject\<close> deletes that entry from the
  map being iterated and no other, so the iteration visits the entries present at its start,
  in insertion order.
\<close>

definition onDisconnect :: "tcp_client \<Rightarrow> js_error + tcp_client" where
  "onDisconnect s =
     (case client s of
        None \<Rightarrow> Inl (AssertionError [])
      | Some _ \<Rightarrow>
          let s1 = s\<lparr>isConnected := False\<rparr>;
              s2 = client_off ''error'' ''onClientError''
                     (client_off ''stream'' ''onStream''
                       (client_off ''malformedRequest'' ''onMalformedRequest''
                         (client_off ''message'' ''onMessage''
                           (client_off ''disconnect'' ''onDisconnect'' s1))));
              s3 = foldl (\<lambda>st req. pending_reject req (ConnectionLostError (type req)) st)
                         s2 (map snd (pending s2));
              s4 = s3\<lparr>pending := []\<rparr>
          in Inr (s4\<lparr>closes := closes s4 + 1\<rparr>))"

text \<open>\<open>IronfishRpcClient.handleStream\<close> and \<open>handleEnd\<close>; \<open>Inl\<close> is the rejection of the async function.\<close>

definition handleStream :: "collaborators \<Rightarrow> json \<Rightarrow> tcp_client \<Rightarrow> js_error + tcp_client" where
  "handleStream deps data s =
     (case IpcStreamSchema deps data of
        Validation None err \<Rightarrow> Inl (thrown err)
      | Validation (Some res) _ \<Rightarrow>
          (case map_of (pending s) (s_id res) of
             None \<Rightarrow> Inr s
           | Some p \<Rightarrow> Inr (stream_write (stream p) (s_data res) s)))"

definition handleEnd :: "collaborators \<Rightarrow> json \<Rightarrow> tcp_client \<Rightarrow> js_error + tcp_client" where
  "handleEnd deps data s =
     (case IpcResponseSchema deps data of
        Validation None err \<Rightarrow> Inl (thrown err)
      | Validation (Some res) _ \<Rightarrow>
          (case map_of (pending s) (r_id res) of
             None \<Rightarrow> Inr s
           | Some p \<Rightarrow>
               let s1 = s\<lparr>statuses := (statuses s)(response p \<mapsto> r_status res)\<rparr> in
               if isResponseError deps (r_status res) then
                 (case IpcErrorSchema deps (r_data res) of
                    Validation (Some errorBody) _ \<Rightarrow>
                      Inr (pending_reject p
                             (RequestError (response p) (e_code errorBody) (e_message errorBody) (e_stack errorBody)) s1)
                  | Validation None (Some errorError) \<Rightarrow> Inr (pending_reject p errorError s1)
                  | Validation None None \<Rightarrow> Inr (pending_reject p (Raw data) s1))
               else Inr (pending_resolve p (r_data res) s1)))"

text \<open>
  \<open>IronfishRpcClient.tryConnect\<close>, over the outcome of \<open>this.connect(...)\<close>: the
  rejection (\<open>Inl\<close>) or the state after the connection is made.
\<close>

definition tryConnect_of :: "tcp_client \<Rightarrow> js_error + tcp_client \<Rightarrow> js_error + (bool \<times> tcp_client)" where
  "tryConnect_of s r =
     (case r of
        Inr s' \<Rightarrow> Inr (True, s')
      | Inl e \<Rightarrow> if instanceof_ConnectionError e then Inr (False, s) else Inl e)"

section \<open>The TCP transport (\<open>IronfishTcpClient\<close>)\<close>

text \<open>What the socket answers to \<open>this.client.connect(port, host)\<close>: its \<open>connect\<close> event or its \<open>error\<close> event.\<close>

datatype connect_outcome = SocketConnect | SocketError js_error

text \<open>\<open>IronfishTcpClient.onConnect\<close>; it does not call the inherited \<open>onConnect\<close>.\<close>

definition onConnect :: "tcp_client \<Rightarrow> tcp_client" where
  "onConnect s =
     client_on ''close'' ''onClientClose'' (client_on ''data'' ''onClientData'' (s\<lparr>isConnected := True\<rparr>))"

text \<open>
  \<open>IronfishTcpClient.connect\<close>: \<open>Inl\<close> is the rejection of the returned promise. The two
  listeners registered for the attempt are removed again by whichever of them runs, so a
  rejected attempt leaves the client as it was.
\<close>

definition connect :: "collaborators \<Rightarrow> connect_outcome \<Rightarrow> tcp_client \<Rightarrow> js_error + tcp_client" where
  "connect deps outcome s =
     (case outcome of
        SocketConnect \<Rightarrow> Inr (onConnect s)
      | SocketError error \<Rightarrow>
          if isConnectRefusedError deps error then Inl ConnectionRefusedError
          else if isNoEntityError deps error then Inl ConnectionRefusedError
          else Inl error)"

definition tryConnect :: "collaborators \<Rightarrow> connect_outcome \<Rightarrow> tcp_client \<Rightarrow> js_error + (bool \<times> tcp_client)" where
  "tryConnect deps outcome s = tryConnect_of s (connect deps outcome s)"

text \<open>\<open>IronfishTcpClient.onClientClose\<close>.\<close>

definition onClientClose :: "tcp_client \<Rightarrow> tcp_client" where
  "onClientClose s =
     client_off ''close'' ''onClientClose'' (client_off ''data'' ''onClientData'' (s\<lparr>isConnected := False\<rparr>))"

text \<open>
  The call \<open>this.onError(error)\<close> in a handler of the TCP client. \<open>IronfishRpcClient\<close>
  declares the field \<open>onError = new Event()\<close>, which its constructor assigns to the
  instance; \<open>IronfishTcpClient\<close> declares a method \<open>onError\<close>, which is a property of
  the prototype. A property of the instance hides one of the prototype, so \<open>this.onError\<close>
  is the \<open>Event\<close>, which is not a function: the call throws a \<open>TypeError\<close>, and the
  method, which would give the error to the logger, never runs.
\<close>

definition onError :: "js_error \<Rightarrow> tcp_client \<Rightarrow> js_error + tcp_client" where
  "onError e s = Inl (TypeError ''this.onError is not a function'')"

text \<open>
  \<open>promise.catch((e) => this.onError(e))\<close> for a promise rejected with \<open>e\<close>, where the
  promise that \<open>catch\<close> returns is dropped: what the callback throws is a rejection that
  nothing handles.
\<close>

definition catch_onError :: "js_error \<Rightarrow> tcp_client \<Rightarrow> tcp_client" where
  "catch_onError e s =
     (case onError e s of
        Inl e' \<Rightarrow> s\<lparr>unhandled := unhandled s @ [e']\<rparr>
      | Inr s' \<Rightarrow> s')"

text \<open>\<open>IronfishTcpClient.onMessage\<close> and \<open>onStream\<close>, which replace the inherited ones.\<close>

definition onMessage :: "collaborators \<Rightarrow> json \<Rightarrow> tcp_client \<Rightarrow> tcp_client" where
  "onMessage deps data s = (case handleEnd deps data s of Inl e \<Rightarrow> catch_onError e s | Inr s' \<Rightarrow> s')"

definition onStream :: "collaborators \<Rightarrow> json \<Rightarrow> tcp_client \<Rightarrow> tcp_client" where
  "onStream deps data s = (case handleStream deps data s of Inl e \<Rightarrow> catch_onError e s | Inr s' \<Rightarrow> s')"

record tcp_response =
  t_type :: string
  t_data :: json

text \<open>
  \<open>YupUtils.tryValidate(TcpResponseSchema, value)\<close> for the schema declared in
  \<open>tcpClient.ts\<close>: an object whose \<open>type\<close> is one of the four strings and whose
  \<open>data\<close> is present and not \<open>null\<close>; other properties are dropped. The error names
  the path that failed.
\<close>

definition TcpResponseSchema :: "json \<Rightarrow> tcp_response validation" where
  "TcpResponseSchema v =
     (case v of
        JObj props \<Rightarrow>
          (case map_of props ''type'' of
             Some (JStr t) \<Rightarrow>
               if t \<in> set [''message'', ''malformedRequest'', ''error'', ''stream''] then
                 (case map_of props ''data'' of
                    None \<Rightarrow> Validation None (Some (ValidationError ''data''))
                  | Some d \<Rightarrow>
                      if d = JNull then Validation None (Some (ValidationError ''data''))
                      else Validation (Some \<lparr>t_type = t, t_data = d\<rparr>) None)
               else Validation None (Some (ValidationError ''type''))
           | _ \<Rightarrow> Validation None (Some (ValidationError ''type'')))
      | _ \<Rightarrow> Validation None (Some (ValidationError [])))"

text \<open>
  \<open>String.prototype.trim\<close> removes white space and line terminators from both ends: among
  the code units below 256 these are tab, line feed, vertical tab, form feed, carriage
  return, space and no-break space.
\<close>

definition is_js_space :: "char \<Rightarrow> bool" where
  "is_js_space c =
     (c = CHR 0x09 \<or> c = CHR 0x0A \<or> c = CHR 0x0B \<or> c = CHR 0x0C \<or> c = CHR 0x0D \<or> c = CHR 0x20 \<or> c = CHR 0xA0)"

definition trim :: "string \<Rightarrow> string" where
  "trim s = rev (dropWhile is_js_space (rev (dropWhile is_js_space s)))"

text \<open>\<open>String.prototype.split\<close> with a separator of one character.\<close>

fun split :: "char \<Rightarrow> string \<Rightarrow> string list" where
  "split d [] = [[]]"
| "split d (c # cs) =
     (if c = d then [] # split d cs
      else (case split d cs of [] \<Rightarrow> [[c]] | x # xs \<Rightarrow> (c # x) # xs))"

text \<open>
  \<open>this.client.emit(type, data)\<close>. The TCP client registers no listener for the four
  envelope events. An \<open>EventEmitter\<close> that is given an \<open>error\<close> event and has no listener
  for it throws.
\<close>

definition client_emit :: "string \<Rightarrow> json \<Rightarrow> tcp_client \<Rightarrow> js_error + tcp_client" where
  "client_emit ev data s =
     (case client s of
        None \<Rightarrow> Inr s
      | Some c \<Rightarrow>
          if ev = ''error'' \<and> ''error'' \<notin> fst ` set (listeners c) then Inl (UnhandledError data)
          else Inr s)"

text \<open>
  \<open>IronfishTcpClient.onData\<close>. The events of one read are the pieces of the trimmed text
  between delimiters.
\<close>

definition frames :: "string \<Rightarrow> string list" where
  "frames data = split NODE_IPC_DELIMITER (trim data)"

text \<open>
  The body of the loop, for one event. First the event is parsed and validated; \<open>Inl\<close>
  is what is thrown: the \<open>SyntaxError\<close> of \<open>JSON.parse\<close>, or the error of the
  validation.
\<close>

definition decode_event :: "string \<Rightarrow> js_error + tcp_response" where
  "decode_event event =
     (case JSON_parse event of
        None \<Rightarrow> Inl SyntaxError
      | Some v \<Rightarrow>
          (case TcpResponseSchema v of
             Validation None error \<Rightarrow> Inl (thrown error)
           | Validation (Some res) _ \<Rightarrow> Inr res))"

text \<open>Then the \<open>switch\<close> on the type; \<open>Inl\<close> is what the call in the taken case throws.\<close>

definition dispatch :: "collaborators \<Rightarrow> tcp_response \<Rightarrow> tcp_client \<Rightarrow> js_error + tcp_client" where
  "dispatch deps res s =
     (if t_type res = ''message'' then Inr (onMessage deps (t_data res) s)
      else if t_type res = ''stream'' then Inr (onStream deps (t_data res) s)
      else if t_type res = ''error'' \<or> t_type res = ''malformedRequest''
        then onError (Raw (t_data res)) s
      else Inr s)"

text \<open>
  Then the \<open>emit\<close>, which is reached when the \<open>switch\<close> has not thrown. The first
  component of the result is what the body threw, if it did.
\<close>

definition deliver :: "collaborators \<Rightarrow> tcp_response \<Rightarrow> tcp_client \<Rightarrow> js_error option \<times> tcp_client" where
  "deliver deps res s =
     (case dispatch deps res s of
        Inl e \<Rightarrow> (Some e, s)
      | Inr s1 \<Rightarrow>
          (case client_emit (t_type res) (t_data res) s1 of
             Inl e \<Rightarrow> (Some e, s1)
           | Inr s2 \<Rightarrow> (None, s2)))"

text \<open>
  The loop over the events. The first component of the result is what the async function
  threw, if it did; the loop ends there.
\<close>

fun onData_events :: "collaborators \<Rightarrow> string list \<Rightarrow> tcp_client \<Rightarrow> js_error option \<times> tcp_client" where
  "onData_events deps [] s = (None, s)"
| "onData_events deps (event # events) s =
     (case decode_event event of
        Inl e \<Rightarrow> (Some e, s)
      | Inr res \<Rightarrow>
          (case deliver deps res s of
             (Some e, s1) \<Rightarrow> (Some e, s1)
           | (None, s2) \<Rightarrow> onData_events deps events s2))"

definition onData :: "collaborators \<Rightarrow> string \<Rightarrow> tcp_client \<Rightarrow> js_error option \<times> tcp_client" where
  "onData deps data s = onData_events deps (frames data) s"

text \<open>\<open>IronfishTcpClient.onClientData\<close>: \<open>void this.onData(data).catch((e) => this.onError(e))\<close>.\<close>

definition onClientData :: "collaborators \<Rightarrow> string \<Rightarrow> tcp_client \<Rightarrow> tcp_client" where
  "onClientData deps data s =
     (case onData deps data s of
        (None, s') \<Rightarrow> s'
      | (Some e, s') \<Rightarrow> catch_onError e s')"

section \<open>Runs of the client\<close>

text \<open>
  The handlers run one at a time, each to its end, in the order of their events. An event
  is a call by the application, a notification of the socket, or a timer that is due. The
  socket's \<open>data\<close> and \<open>close\<close> events reach the client while its handlers for them are
  registered. A timer runs its callback once, and only if it has not been cleared; after
  that it is no longer due. \<open>Disconnect\<close> stands for a run of the inherited handler
  \<open>onDisconnect\<close>, wherever it is called from: the TCP client never registers it. A call
  that throws leaves the client unchanged.
\<close>

datatype event =
    Connect connect_outcome
  | Request string unknown timeout_option
  | Data string
  | TimerFires int
  | Close
  | Disconnect

definition listening :: "string \<Rightarrow> string \<Rightarrow> tcp_client \<Rightarrow> bool" where
  "listening ev h s = (case client s of None \<Rightarrow> False | Some c \<Rightarrow> (ev, h) \<in> set (listeners c))"

definition timerFires :: "int \<Rightarrow> tcp_client \<Rightarrow> tcp_client" where
  "timerFires t s =
     (case timers s t of
        None \<Rightarrow> s
      | Some tm \<Rightarrow>
          if t_active tm
          then (let s' = onTimeout t (t_ms tm) (t_route tm) s
                in s'\<lparr>timers := (timers s')(t \<mapsto> tm\<lparr>t_active := False\<rparr>)\<rparr>)
          else s)"

fun step :: "collaborators \<Rightarrow> tcp_client \<Rightarrow> event \<Rightarrow> tcp_client" where
  "step deps s (Connect outcome) = (case connect deps outcome s of Inl _ \<Rightarrow> s | Inr s' \<Rightarrow> s')"
| "step deps s (Request route data options) = (case request route data options s of Inl _ \<Rightarrow> s | Inr (_, s') \<Rightarrow> s')"
| "step deps s (Data bytes) =
     (if listening ''data'' ''onClientData'' s then onClientData deps bytes s else s)"
| "step deps s (TimerFires t) = timerFires t s"
| "step deps s Close = (if listening ''close'' ''onClientClose'' s then onClientClose s else s)"
| "step deps s Disconnect = (case onDisconnect s of Inl _ \<Rightarrow> s | Inr s' \<Rightarrow> s')"

definition run :: "collaborators \<Rightarrow> tcp_client \<Rightarrow> event list \<Rightarrow> tcp_client" where
  "run deps s evs = foldl (step deps) s evs"

section \<open>One instance of the collaborators\<close>

text \<open>
  Modelled from the spec: the schemas \<open>IpcResponseSchema\<close>, \<open>IpcStreamSchema\<close> and
  \<open>IpcErrorSchema\<close> of \<open>rpc/adapters\<close>, the test \<open>isResponseError\<close> of
  \<open>rpc/response\<close> and the tests \<open>isConnectRefusedError\<close> and \<open>isNoEntityError\<close> of
  \<open>utils\<close>, all missing from the sources. The payload of a \<open>message\<close> is
  \<open>{ id, status, data }\<close> with numeric \<open>id\<close> and \<open>status\<close>, the payload of a \<open>stream\<close>
  is \<open>{ id, data }\<close>, an error body is \<open>{ code, message, stack }\<close> with strings \<open>code\<close>
  and \<open>message\<close> and an optional string \<open>stack\<close>. A status of 200 is a success; the
  statuses from 400 to 599 are taken to indicate failure. A socket error is refused or
  no-entity by its code. This instance serves the concrete runs below; the theorems hold
  for every instance.
\<close>

definition get_number :: "(string \<times> json) list \<Rightarrow> string \<Rightarrow> int option" where
  "get_number props k = (case map_of props k of Some (JNum n) \<Rightarrow> Some n | _ \<Rightarrow> None)"

definition get_string :: "(string \<times> json) list \<Rightarrow> string \<Rightarrow> string option" where
  "get_string props k = (case map_of props k of Some (JStr x) \<Rightarrow> Some x | _ \<Rightarrow> None)"

definition spec_IpcResponseSchema :: "json \<Rightarrow> ipc_response validation" where
  "spec_IpcResponseSchema v =
     (case v of
        JObj props \<Rightarrow>
          (case (get_number props ''id'', get_number props ''status'') of
             (Some i, Some st) \<Rightarrow>
               Validation (Some \<lparr>r_id = i, r_status = st, r_data = map_of props ''data''\<rparr>) None
           | (None, _) \<Rightarrow> Validation None (Some (ValidationError ''id''))
           | (_, None) \<Rightarrow> Validation None (Some (ValidationError ''status'')))
      | _ \<Rightarrow> Validation None (Some (ValidationError [])))"

definition spec_IpcStreamSchema :: "json \<Rightarrow> ipc_stream validation" where
  "spec_IpcStreamSchema v =
     (case v of
        JObj props \<Rightarrow>
          (case get_number props ''id'' of
             Some i \<Rightarrow> Validation (Some \<lparr>s_id = i, s_data = map_of props ''data''\<rparr>) None
           | None \<Rightarrow> Validation None (Some (ValidationError ''id'')))
      | _ \<Rightarrow> Validation None (Some (ValidationError [])))"

definition spec_IpcErrorSchema :: "unknown \<Rightarrow> ipc_error validation" where
  "spec_IpcErrorSchema v =
     (case v of
        Some (JObj props) \<Rightarrow>
          (case (get_string props ''code'', get_string props ''message'') of
             (Some c, Some m) \<Rightarrow>
               (case map_of props ''stack'' of
                  None \<Rightarrow> Validation (Some \<lparr>e_code = c, e_message = m, e_stack = None\<rparr>) None
                | Some (JStr st) \<Rightarrow> Validation (Some \<lparr>e_code = c, e_message = m, e_stack = Some st\<rparr>) None
                | Some _ \<Rightarrow> Validation None (Some (ValidationError ''stack'')))
           | (None, _) \<Rightarrow> Validation None (Some (ValidationError ''code''))
           | (_, None) \<Rightarrow> Validation None (Some (ValidationError ''message'')))
      | _ \<Rightarrow> Validation None (Some (ValidationError [])))"

definition spec_deps :: collaborators where
  "spec_deps =
     \<lparr> IpcResponseSchema = spec_IpcResponseSchema,
       IpcStreamSchema = spec_IpcStreamSchema,
       IpcErrorSchema = spec_IpcErrorSchema,
       isResponseError = (\<lambda>status. 400 \<le> status \<and> status \<le> 599),
       isConnectRefusedError = (\<lambda>e. e = SystemError ''ECONNREFUSED''),
       isNoEntityError = (\<lambda>e. e = SystemError ''ENOENT'') \<rparr>"

section \<open>Values and streams the claims speak of\<close>

text \<open>
  The JSON-representable values: the numbers are the safe integers, the keys of an object
  are distinct. These are the values of the fragment that are JavaScript values and on
  which \<open>JSON.stringify\<close> and \<open>JSON.parse\<close> are as modelled above.
\<close>

fun representable :: "json \<Rightarrow> bool" where
  "representable JNull = True"
| "representable (JBool b) = True"
| "representable (JNum i) = (- 9007199254740991 \<le> i \<and> i \<le> 9007199254740991)"
| "representable (JStr s) = True"
| "representable (JArr vs) = (\<forall>v \<in> set vs. representable v)"
| "representable (JObj kvs) = (distinct (map fst kvs) \<and> (\<forall>kv \<in> set kvs. representable (snd kv)))"

text \<open>
  The envelope \<open>{ type, data }\<close> a peer sends, and a stream of envelopes on the wire, each
  framed as \<open>send\<close> frames a request. A well-formed envelope here is one of type
  \<open>message\<close> or \<open>stream\<close> with JSON-representable data other than \<open>null\<close>.
\<close>

definition envelope_json :: "tcp_response \<Rightarrow> json" where
  "envelope_json r = JObj [(''type'', JStr (t_type r)), (''data'', t_data r)]"

definition well_formed :: "tcp_response \<Rightarrow> bool" where
  "well_formed r \<longleftrightarrow>
     t_type r \<in> set [''message'', ''stream'']
     \<and> t_data r \<noteq> JNull \<and> representable (t_data r)"

definition wire :: "tcp_response list \<Rightarrow> string" where
  "wire rs = concat (map (\<lambda>r. framed (envelope_json r)) rs)"

text \<open>The text of a frame, and what \<open>trim\<close> does at the end of a text.\<close>

definition frame_text :: "tcp_response \<Rightarrow> string" where
  "frame_text r = JSON_stringify (envelope_json r)"

definition rtrim :: "string \<Rightarrow> string" where
  "rtrim s = rev (dropWhile is_js_space (rev s))"

text \<open>
  The state after the body of the loop of \<open>onData\<close> for one event: the state after the
  \<open>switch\<close>, or the one before it if the \<open>switch\<close> threw.
\<close>

definition dispatched :: "collaborators \<Rightarrow> tcp_response \<Rightarrow> tcp_client \<Rightarrow> tcp_client" where
  "dispatched deps res s = (case dispatch deps res s of Inl _ \<Rightarrow> s | Inr s1 \<Rightarrow> s1)"

text \<open>Two notions for the proofs about \<open>JSON.parse\<close>: what may follow a value inside a text, and the text of one member of an object.\<close>

definition follows :: "string \<Rightarrow> bool" where
  "follows rest \<longleftrightarrow> rest = [] \<or> hd rest = CHR '','' \<or> hd rest = CHR '']'' \<or> hd rest = CHR ''}''"

definition member_text :: "string \<times> json \<Rightarrow> string" where
  "member_text kv = QuoteJSONString (fst kv) @ CHR '':'' # JSON_stringify (snd kv)"

section \<open>Consistent states\<close>

text \<open>
  Three properties relate the table \<open>this.pending\<close> to the heap objects of the requests
  and to the trace of settlements. The table: its keys are distinct, an entry under key
  \<open>i\<close> belongs to request \<open>i\<close> whose promise is pending, and it holds a timer exactly
  if one was made, which is then still due and carries the entry's route.
\<close>

definition table_ok :: "tcp_client \<Rightarrow> bool" where
  "table_ok s \<longleftrightarrow>
     distinct (map fst (pending s))
     \<and> (\<forall>i p. map_of (pending s) i = Some p \<longrightarrow>
           messageId p = i \<and> response p = i \<and> stream p = i \<and> promises s i = Some Pending)
     \<and> (\<forall>i p. map_of (pending s) i = Some p \<longrightarrow> timers s i = None \<longrightarrow> timeout p = None)
     \<and> (\<forall>i p t. map_of (pending s) i = Some p \<longrightarrow> timers s i = Some t \<longrightarrow>
           timeout p = Some i \<and> t_active t \<and> t_route t = type p)"

text \<open>
  The heap: a pending promise has its entry in the table; promises exist only for ids
  that were handed out; a promise has a stream, closed once the promise is settled; a
  timer belongs to a promise and is not due once that promise is settled.
\<close>

definition heap_ok :: "tcp_client \<Rightarrow> bool" where
  "heap_ok s \<longleftrightarrow>
     (\<forall>i. promises s i = Some Pending \<longrightarrow> map_of (pending s) i \<noteq> None)
     \<and> (\<forall>i q. promises s i = Some q \<longrightarrow> i \<le> messageIds s)
     \<and> (\<forall>i q. promises s i = Some q \<longrightarrow> streams s i \<noteq> None)
     \<and> (\<forall>i q st. promises s i = Some q \<longrightarrow> q \<noteq> Pending \<longrightarrow> streams s i = Some st \<longrightarrow> st_closed st)
     \<and> (\<forall>i t. timers s i = Some t \<longrightarrow> promises s i \<noteq> None)
     \<and> (\<forall>i q t. promises s i = Some q \<longrightarrow> q \<noteq> Pending \<longrightarrow> timers s i = Some t \<longrightarrow> \<not> t_active t)"

text \<open>
  The trace: \<open>resolve\<close> or \<open>reject\<close> has been called once for a settled promise and
  never for another, and the call recorded is the promise's outcome.
\<close>

definition trace_ok :: "tcp_client \<Rightarrow> bool" where
  "trace_ok s \<longleftrightarrow>
     (\<forall>i. count_list (map fst (settled s)) i =
            (case promises s i of None \<Rightarrow> 0 | Some q \<Rightarrow> if q = Pending then 0 else 1))
     \<and> (\<forall>i q. (i, q) \<in> set (settled s) \<longrightarrow> promises s i = Some q \<and> q \<noteq> Pending)"

definition consistent :: "tcp_client \<Rightarrow> bool" where
  "consistent s \<longleftrightarrow> table_ok s \<and> heap_ok s \<and> trace_ok s"

text \<open>
  Request \<open>i\<close> has been settled with outcome \<open>q\<close>: it is out of the table, its promise
  has the outcome, \<open>resolve\<close> or \<open>reject\<close> has been called once for it, with that
  outcome, its stream is closed and its timer, if it has one, is not due.
\<close>

definition fired :: "int \<Rightarrow> promise \<Rightarrow> tcp_client \<Rightarrow> bool" where
  "fired i q s \<longleftrightarrow>
     q \<noteq> Pending
     \<and> map_of (pending s) i = None
     \<and> promises s i = Some q
     \<and> (i, q) \<in> set (settled s)
     \<and> count_list (map fst (settled s)) i = 1
     \<and> (\<exists>st. streams s i = Some st \<and> st_closed st)
     \<and> (\<forall>t. timers s i = Some t \<longrightarrow> \<not> t_active t)"

text \<open>The state at the end of the loop of \<open>onDisconnect\<close>, before the table is cleared.\<close>

definition rejected_all :: "tcp_client \<Rightarrow> tcp_client" where
  "rejected_all s =
     foldl (\<lambda>st req. pending_reject req (ConnectionLostError (type req)) st) s (map snd (pending s))"

text \<open>
  A later state extends an earlier one: the trace has grown, no id was taken back, the
  socket is still there, and a timer that was made keeps its delay and its route.
\<close>

definition extends :: "tcp_client \<Rightarrow> tcp_client \<Rightarrow> bool" where
  "extends s s' \<longleftrightarrow>
     set (settled s) \<subseteq> set (settled s')
     \<and> messageIds s \<le> messageIds s'
     \<and> (client s \<noteq> None \<longrightarrow> client s' \<noteq> None)
     \<and> (\<forall>i tm. timers s i = Some tm \<longrightarrow> i \<le> messageIds s \<longrightarrow>
           (\<exists>tm'. timers s' i = Some tm' \<and> t_ms tm' = t_ms tm \<and> t_route tm' = t_route tm))"

section \<open>Every operation keeps the state consistent\<close>

lemma rejectRequest_fields [simp]:
  "pending (rejectRequest mid tmo strm e s) = AList.delete mid (pending s)"
  "promises (rejectRequest mid tmo strm e s) =
     (case promises s mid of None \<Rightarrow> promises s | Some p \<Rightarrow> (promises s)(mid \<mapsto> promise_settle (Rejected e) p))"
  "settled (rejectRequest mid tmo strm e s) = settled s @ [(mid, Rejected e)]"
  "streams (rejectRequest mid tmo strm e s) =
     (case streams s strm of None \<Rightarrow> streams s | Some st \<Rightarrow> (streams s)(strm \<mapsto> Stream_close st))"
  "timers (rejectRequest mid tmo strm e s) =
     (case tmo of None \<Rightarrow> timers s
      | Some t \<Rightarrow> (case timers s t of None \<Rightarrow> timers s | Some tm \<Rightarrow> (timers s)(t \<mapsto> tm\<lparr>t_active := False\<rparr>)))"
  "messageIds (rejectRequest mid tmo strm e s) = messageIds s"
  "client (rejectRequest mid tmo strm e s) = client s"
  "isConnected (rejectRequest mid tmo strm e s) = isConnected s"
  "unhandled (rejectRequest mid tmo strm e s) = unhandled s"
  "closes (rejectRequest mid tmo strm e s) = closes s"
  "statuses (rejectRequest mid tmo strm e s) = statuses s"
  "timeoutMs (rejectRequest mid tmo strm e s) = timeoutMs s"
  by (simp_all add: rejectRequest_def Let_def settle_def stream_close_def clearTimeout_def
        split: option.splits)

lemma resolveRequest_fields [simp]:
  "pending (resolveRequest mid tmo strm v s) = AList.delete mid (pending s)"
  "promises (resolveRequest mid tmo strm v s) =
     (case promises s mid of None \<Rightarrow> promises s | Some p \<Rightarrow> (promises s)(mid \<mapsto> promise_settle (Fulfilled v) p))"
  "settled (resolveRequest mid tmo strm v s) = settled s @ [(mid, Fulfilled v)]"
  "streams (resolveRequest mid tmo strm v s) =
     (case streams s strm of None \<Rightarrow> streams s | Some st \<Rightarrow> (streams s)(strm \<mapsto> Stream_close st))"
  "timers (resolveRequest mid tmo strm v s) =
     (case tmo of None \<Rightarrow> timers s
      | Some t \<Rightarrow> (case timers s t of None \<Rightarrow> timers s | Some tm \<Rightarrow> (timers s)(t \<mapsto> tm\<lparr>t_active := False\<rparr>)))"
  "messageIds (resolveRequest mid tmo strm v s) = messageIds s"
  "client (resolveRequest mid tmo strm v s) = client s"
  "isConnected (resolveRequest mid tmo strm v s) = isConnected s"
  "unhandled (resolveRequest mid tmo strm v s) = unhandled s"
  "closes (resolveRequest mid tmo strm v s) = closes s"
  "statuses (resolveRequest mid tmo strm v s) = statuses s"
  "timeoutMs (resolveRequest mid tmo strm v s) = timeoutMs s"
  by (simp_all add: resolveRequest_def Let_def settle_def stream_close_def clearTimeout_def
        split: option.splits)


lemma consistent_new: "consistent (IronfishTcpClient h p)"
  by (simp add: consistent_def table_ok_def heap_ok_def trace_ok_def IronfishTcpClient_def)

text \<open>What a settlement does to a consistent state.\<close>

lemma consistent_settled:
  assumes c: "consistent s" and p: "map_of (pending s) i = Some p" and q: "q \<noteq> Pending"
    and pe: "pending s' = AList.delete i (pending s)"
    and pr: "promises s' = (promises s)(i \<mapsto> q)"
    and se: "settled s' = settled s @ [(i, q)]"
    and st: "\<exists>st. streams s i = Some st \<and> streams s' = (streams s)(i \<mapsto> Stream_close st)"
    and ti: "timers s' = (case timers s i of None \<Rightarrow> timers s | Some t \<Rightarrow> (timers s)(i \<mapsto> t\<lparr>t_active := False\<rparr>))"
    and mi: "messageIds s' = messageIds s"
  shows "consistent s'"
proof -
  from c have t: "table_ok s" and h: "heap_ok s" and tr: "trace_ok s"
    by (simp_all add: consistent_def)
  from t p have pi: "promises s i = Some Pending"
    by (simp add: table_ok_def)
  have "table_ok s'"
    using t unfolding table_ok_def pe pr ti
    by (auto simp: delete_conv' distinct_delete split: option.splits if_splits)
  moreover have "heap_ok s'"
    using h q st pi unfolding heap_ok_def pe pr ti mi
    by (auto simp: delete_conv' Stream_close_def split: option.splits if_splits)
  moreover have "trace_ok s'"
    using tr q pi unfolding trace_ok_def pr se
    by (auto split: option.splits if_splits)
  ultimately show ?thesis
    by (simp add: consistent_def)
qed


lemma consistent_entry:
  assumes "consistent s" "map_of (pending s) i = Some p"
  shows "messageId p = i" "stream p = i" "response p = i" "promises s i = Some Pending"
    "timeout p = (case timers s i of None \<Rightarrow> None | Some _ \<Rightarrow> Some i)"
    "\<exists>st. streams s i = Some st"
proof -
  from assms have t: "table_ok s" and h: "heap_ok s"
    by (simp_all add: consistent_def)
  from t assms(2) show T: "messageId p = i" "stream p = i" "response p = i" "promises s i = Some Pending"
    unfolding table_ok_def by blast+
  from t assms(2) show "timeout p = (case timers s i of None \<Rightarrow> None | Some _ \<Rightarrow> Some i)"
    unfolding table_ok_def by (cases "timers s i") auto
  from h T(4) show "\<exists>st. streams s i = Some st"
    unfolding heap_ok_def by blast
qed

lemma consistent_reject:
  assumes "consistent s" "map_of (pending s) i = Some p"
  shows "consistent (pending_reject p e s)"
proof (rule consistent_settled [OF assms, where q = "Rejected e"])
  note e = consistent_entry [OF assms]
  show "pending (pending_reject p e s) = AList.delete i (pending s)"
    by (simp add: pending_reject_def e)
  show "promises (pending_reject p e s) = (promises s)(i \<mapsto> Rejected e)"
    by (simp add: pending_reject_def e promise_settle_def)
  show "settled (pending_reject p e s) = settled s @ [(i, Rejected e)]"
    by (simp add: pending_reject_def e)
  from e(6) obtain st where "streams s i = Some st" by blast
  then show "\<exists>st. streams s i = Some st \<and> streams (pending_reject p e s) = (streams s)(i \<mapsto> Stream_close st)"
    by (simp add: pending_reject_def e)
  show "timers (pending_reject p e s)
          = (case timers s i of None \<Rightarrow> timers s | Some t \<Rightarrow> (timers s)(i \<mapsto> t\<lparr>t_active := False\<rparr>))"
    by (simp add: pending_reject_def e split: option.splits)
qed (simp_all add: pending_reject_def)

lemma consistent_resolve:
  assumes "consistent s" "map_of (pending s) i = Some p"
  shows "consistent (pending_resolve p v s)"
proof (rule consistent_settled [OF assms, where q = "Fulfilled v"])
  note e = consistent_entry [OF assms]
  show "pending (pending_resolve p v s) = AList.delete i (pending s)"
    by (simp add: pending_resolve_def e)
  show "promises (pending_resolve p v s) = (promises s)(i \<mapsto> Fulfilled v)"
    by (simp add: pending_resolve_def e promise_settle_def)
  show "settled (pending_resolve p v s) = settled s @ [(i, Fulfilled v)]"
    by (simp add: pending_resolve_def e)
  from e(6) obtain st where "streams s i = Some st" by blast
  then show "\<exists>st. streams s i = Some st \<and> streams (pending_resolve p v s) = (streams s)(i \<mapsto> Stream_close st)"
    by (simp add: pending_resolve_def e)
  show "timers (pending_resolve p v s)
          = (case timers s i of None \<Rightarrow> timers s | Some t \<Rightarrow> (timers s)(i \<mapsto> t\<lparr>t_active := False\<rparr>))"
    by (simp add: pending_resolve_def e split: option.splits)
qed (simp_all add: pending_resolve_def)

lemma consistent_statuses [simp]: "consistent (s\<lparr>statuses := x\<rparr>) = consistent s"
  by (simp add: consistent_def table_ok_def heap_ok_def trace_ok_def)

lemma consistent_isConnected [simp]: "consistent (s\<lparr>isConnected := x\<rparr>) = consistent s"
  by (simp add: consistent_def table_ok_def heap_ok_def trace_ok_def)

lemma consistent_closes [simp]: "consistent (s\<lparr>closes := x\<rparr>) = consistent s"
  by (simp add: consistent_def table_ok_def heap_ok_def trace_ok_def)

lemma consistent_client [simp]: "consistent (s\<lparr>client := x\<rparr>) = consistent s"
  by (simp add: consistent_def table_ok_def heap_ok_def trace_ok_def)

lemma consistent_unhandled [simp]: "consistent (s\<lparr>unhandled := x\<rparr>) = consistent s"
  by (simp add: consistent_def table_ok_def heap_ok_def trace_ok_def)

lemma consistent_onError [simp]: "consistent (catch_onError e s) = consistent s"
  by (simp add: catch_onError_def onError_def)

lemma consistent_client_on [simp]: "consistent (client_on ev h s) = consistent s"
  by (simp add: client_on_def)

lemma consistent_client_off [simp]: "consistent (client_off ev h s) = consistent s"
  by (simp add: client_off_def)

lemma consistent_client_write [simp]: "consistent (client_write b s) = consistent s"
  by (simp add: client_write_def)

lemma st_closed_Stream_write [simp]: "st_closed (Stream_write v st) = st_closed st"
  by (simp add: Stream_write_def)

lemma stream_write_fields [simp]:
  "pending (stream_write a v s) = pending s"
  "promises (stream_write a v s) = promises s"
  "timers (stream_write a v s) = timers s"
  "settled (stream_write a v s) = settled s"
  "messageIds (stream_write a v s) = messageIds s"
  by (auto simp: stream_write_def split: option.splits)

lemma stream_write_streams:
  "(streams (stream_write a v s) i = None) = (streams s i = None)"
  "streams (stream_write a v s) i = Some st' \<Longrightarrow> \<exists>st. streams s i = Some st \<and> st_closed st' = st_closed st"
  by (auto simp: stream_write_def split: option.splits if_splits)

lemma consistent_stream_write:
  assumes "consistent s"
  shows "consistent (stream_write a v s)"
proof -
  from assms have t: "table_ok s" and h: "heap_ok s" and tr: "trace_ok s"
    by (simp_all add: consistent_def)
  have "table_ok (stream_write a v s)"
    using t unfolding table_ok_def by simp
  moreover have "heap_ok (stream_write a v s)"
    unfolding heap_ok_def
  proof (intro conjI allI impI)
    fix i q st
    assume "promises (stream_write a v s) i = Some q" "q \<noteq> Pending" "streams (stream_write a v s) i = Some st"
    then show "st_closed st"
      using h stream_write_streams(2) [of a v s i st] unfolding heap_ok_def by fastforce
  next
    fix i q
    assume "promises (stream_write a v s) i = Some q"
    then show "streams (stream_write a v s) i \<noteq> None"
      using h unfolding heap_ok_def by (auto simp: stream_write_streams(1))
  qed (use h in \<open>auto simp: heap_ok_def\<close>)
  moreover have "trace_ok (stream_write a v s)"
    using tr unfolding trace_ok_def by simp
  ultimately show ?thesis
    by (simp add: consistent_def)
qed

lemma heap_okD:
  assumes "heap_ok s"
  shows "promises s i = Some Pending \<Longrightarrow> map_of (pending s) i \<noteq> None"
    and "promises s i = Some q \<Longrightarrow> i \<le> messageIds s"
    and "promises s i = Some q \<Longrightarrow> streams s i \<noteq> None"
    and "promises s i = Some q \<Longrightarrow> q \<noteq> Pending \<Longrightarrow> streams s i = Some st \<Longrightarrow> st_closed st"
    and "timers s i = Some t \<Longrightarrow> promises s i \<noteq> None"
    and "promises s i = Some q \<Longrightarrow> q \<noteq> Pending \<Longrightarrow> timers s i = Some t \<Longrightarrow> \<not> t_active t"
  using assms unfolding heap_ok_def by blast+

lemma table_okD:
  assumes "table_ok s"
  shows "distinct (map fst (pending s))"
    and "map_of (pending s) i = Some p \<Longrightarrow>
           messageId p = i \<and> response p = i \<and> stream p = i \<and> promises s i = Some Pending"
    and "map_of (pending s) i = Some p \<Longrightarrow> timers s i = None \<Longrightarrow> timeout p = None"
    and "map_of (pending s) i = Some p \<Longrightarrow> timers s i = Some t \<Longrightarrow>
           timeout p = Some i \<and> t_active t \<and> t_route t = type p"
  using assms unfolding table_ok_def by blast+

lemma consistent_fresh:
  assumes "consistent s" "messageIds s < i"
  shows "promises s i = None" "map_of (pending s) i = None" "timers s i = None"
proof -
  from assms have t: "table_ok s" and h: "heap_ok s"
    by (simp_all add: consistent_def)
  show p: "promises s i = None"
  proof (cases "promises s i")
    case (Some q)
    from heap_okD(2) [OF h Some] assms(2) show ?thesis by simp
  qed simp
  show "map_of (pending s) i = None"
  proof (cases "map_of (pending s) i")
    case (Some e)
    from table_okD(2) [OF t Some] p show ?thesis by simp
  qed simp
  show "timers s i = None"
  proof (cases "timers s i")
    case (Some tm)
    from heap_okD(5) [OF h Some] p show ?thesis by simp
  qed simp
qed

lemma request_fields:
  assumes r: "request route data options s = Inr (i, s')"
  defines "tms \<equiv> (case options of Undefined \<Rightarrow> timeoutMs s | Null \<Rightarrow> None | Ms t \<Rightarrow> Some t)"
  shows "i = messageIds s + 1"
    "pending s' = AList.update i \<lparr>response = i, stream = i,
        timeout = (case tms of None \<Rightarrow> None | Some _ \<Rightarrow> Some i), messageId = i, type = route\<rparr> (pending s)"
    "promises s' = (promises s)(i \<mapsto> Pending)"
    "streams s' = (streams s)(i \<mapsto> \<lparr>st_values = [], st_closed = False\<rparr>)"
    "timers s' = (case tms of None \<Rightarrow> timers s
                  | Some ms \<Rightarrow> (timers s)(i \<mapsto> \<lparr>t_ms = ms, t_route = route, t_active = True\<rparr>))"
    "settled s' = settled s" "messageIds s' = i"
  using r
  by (auto simp: request_def Let_def send_def client_write_def tms_def split: option.splits)

lemma consistent_request:
  assumes c: "consistent s" and r: "request route data options s = Inr (i, s')"
  shows "consistent s'"
proof -
  define tms where "tms = (case options of Undefined \<Rightarrow> timeoutMs s | Null \<Rightarrow> None | Ms t \<Rightarrow> Some t)"
  define entry where "entry = \<lparr>response = i, stream = i,
        timeout = (case tms of None \<Rightarrow> None | Some _ \<Rightarrow> Some i), messageId = i, type = route\<rparr>"
  note f = request_fields [OF r, folded tms_def, folded entry_def]
  from c have t: "table_ok s" and h: "heap_ok s" and tr: "trace_ok s"
    by (simp_all add: consistent_def)
  have fresh: "promises s i = None" "map_of (pending s) i = None" "timers s i = None"
    using consistent_fresh [OF c, of i] f(1) by simp_all
  have pm: "map_of (pending s') = (map_of (pending s))(i \<mapsto> entry)"
    by (simp add: f(2) update_conv')
  have ti: "timers s' j = timers s j" if "j \<noteq> i" for j
    using that by (cases tms) (simp_all add: f(5))
  have tii1: "tms = None" if "timers s' i = None"
    using that by (cases tms) (simp_all add: f(5))
  have tii2: "tms \<noteq> None \<and> t_active tm \<and> t_route tm = route" if "timers s' i = Some tm" for tm
    using that fresh(3) by (cases tms) (auto simp: f(5))
  have c1: "distinct (map fst (pending s'))"
    using table_okD(1) [OF t] by (simp add: f(2) distinct_update)
  have c2: "messageId p = j \<and> response p = j \<and> stream p = j \<and> promises s' j = Some Pending"
    if a: "map_of (pending s') j = Some p" for j p
  proof (cases "j = i")
    case True
    with a show ?thesis by (auto simp: pm entry_def f(3))
  next
    case False
    with a table_okD(2) [OF t, of j p] show ?thesis by (simp add: pm f(3))
  qed
  have c3: "timeout p = None" if a: "map_of (pending s') j = Some p" "timers s' j = None" for j p
  proof (cases "j = i")
    case True
    with a tii1 show ?thesis by (auto simp: pm entry_def)
  next
    case False
    with a table_okD(3) [OF t, of j p] ti [of j] show ?thesis by (simp add: pm)
  qed
  have c4: "timeout p = Some j \<and> t_active tm \<and> t_route tm = type p"
    if a: "map_of (pending s') j = Some p" "timers s' j = Some tm" for j p tm
  proof (cases "j = i")
    case True
    with a tii2 [of tm] show ?thesis by (auto simp: pm entry_def)
  next
    case False
    with a table_okD(4) [OF t, of j p tm] ti [of j] show ?thesis by (simp add: pm)
  qed
  have "table_ok s'"
    unfolding table_ok_def using c1 c2 c3 c4 by blast
  moreover have "heap_ok s'"
    unfolding heap_ok_def
  proof (intro conjI allI impI)
    fix j assume "promises s' j = Some Pending"
    then show "map_of (pending s') j \<noteq> None"
      using heap_okD(1) [OF h, of j] by (cases "j = i") (simp_all add: pm f(3))
  next
    fix j q assume "promises s' j = Some q"
    then show "j \<le> messageIds s'"
      using heap_okD(2) [OF h, of j q] f(1) by (cases "j = i") (simp_all add: f(3,7))
  next
    fix j q assume "promises s' j = Some q"
    then show "streams s' j \<noteq> None"
      using heap_okD(3) [OF h, of j q] by (cases "j = i") (simp_all add: f(3,4))
  next
    fix j q st assume "promises s' j = Some q" "q \<noteq> Pending" "streams s' j = Some st"
    then show "st_closed st"
      using heap_okD(4) [OF h, of j q st] by (cases "j = i") (simp_all add: f(3,4))
  next
    fix j tm assume "timers s' j = Some tm"
    then show "promises s' j \<noteq> None"
      using heap_okD(5) [OF h, of j tm] ti [of j] by (cases "j = i") (simp_all add: f(3))
  next
    fix j q tm assume "promises s' j = Some q" "q \<noteq> Pending" "timers s' j = Some tm"
    then show "\<not> t_active tm"
      using heap_okD(6) [OF h, of j q tm] ti [of j] by (cases "j = i") (simp_all add: f(3))
  qed
  moreover have "trace_ok s'"
    using tr fresh(1) unfolding trace_ok_def f(3,6)
    by (auto split: option.splits if_splits)
  ultimately show ?thesis
    by (simp add: consistent_def)
qed

lemma consistent_handleStream:
  assumes "consistent s" "handleStream deps data s = Inr s'"
  shows "consistent s'"
  using assms
  by (cases "IpcStreamSchema deps data")
     (auto simp: handleStream_def consistent_stream_write split: option.splits)

lemma consistent_handleEnd:
  assumes c: "consistent s" and r: "handleEnd deps data s = Inr s'"
  shows "consistent s'"
proof (cases "IpcResponseSchema deps data")
  case (Validation res err)
  show ?thesis
  proof (cases res)
    case None
    with r Validation show ?thesis by (simp add: handleEnd_def)
  next
    case (Some v)
    show ?thesis
    proof (cases "map_of (pending s) (r_id v)")
      case None
      with r Validation Some c show ?thesis by (simp add: handleEnd_def)
    next
      case (Some p)
      define s1 where "s1 = s\<lparr>statuses := (statuses s)(response p \<mapsto> r_status v)\<rparr>"
      have c1: "consistent s1" and p1: "map_of (pending s1) (r_id v) = Some p"
        using c Some by (simp_all add: s1_def)
      from r Validation \<open>res = Some v\<close> Some
      consider e where "s' = pending_reject p e s1" | x where "s' = pending_resolve p x s1"
        by (cases "IpcErrorSchema deps (r_data v)")
           (auto simp: handleEnd_def Let_def s1_def split: option.splits if_splits)
      then show ?thesis
        by cases (simp_all add: consistent_reject [OF c1 p1] consistent_resolve [OF c1 p1])
    qed
  qed
qed

lemma consistent_onMessage: "consistent s \<Longrightarrow> consistent (onMessage deps data s)"
  by (auto simp: onMessage_def consistent_handleEnd split: sum.splits)

lemma consistent_onStream: "consistent s \<Longrightarrow> consistent (onStream deps data s)"
  by (auto simp: onStream_def consistent_handleStream split: sum.splits)

lemma client_emit_Inr: "client_emit ev data s = Inr s' \<Longrightarrow> s' = s"
  by (auto simp: client_emit_def split: option.splits if_splits)

lemma dispatched_eq:
  "dispatched deps res s =
     (if t_type res = ''message'' then onMessage deps (t_data res) s
      else if t_type res = ''stream'' then onStream deps (t_data res) s
      else s)"
  by (simp add: dispatched_def dispatch_def onError_def)

lemma consistent_dispatch: "consistent s \<Longrightarrow> consistent (dispatched deps res s)"
  by (simp add: dispatched_eq consistent_onMessage consistent_onStream)

lemma deliver_snd: "snd (deliver deps res s) = dispatched deps res s"
proof (cases "dispatch deps res s")
  case (Inl e)
  then show ?thesis by (simp add: deliver_def dispatched_def)
next
  case (Inr s1)
  with client_emit_Inr [of "t_type res" "t_data res" s1] show ?thesis
    by (cases "client_emit (t_type res) (t_data res) s1") (simp_all add: deliver_def dispatched_def)
qed

lemma consistent_deliver: "consistent s \<Longrightarrow> consistent (snd (deliver deps res s))"
  by (simp add: deliver_snd consistent_dispatch)

lemma consistent_onData_events:
  "consistent s \<Longrightarrow> consistent (snd (onData_events deps events s))"
proof (induction events arbitrary: s)
  case Nil
  then show ?case by simp
next
  case (Cons event events)
  show ?case
  proof (cases "decode_event event")
    case (Inl e)
    with Cons.prems show ?thesis by simp
  next
    case (Inr res)
    obtain x s1 where d: "deliver deps res s = (x, s1)"
      by (cases "deliver deps res s")
    with consistent_deliver [OF Cons.prems, of deps res] have c1: "consistent s1"
      by simp
    from Inr d c1 Cons.IH [OF c1] show ?thesis
      by (cases x) simp_all
  qed
qed

lemma consistent_onClientData: "consistent s \<Longrightarrow> consistent (onClientData deps data s)"
  using consistent_onData_events [of s deps "frames data"]
  by (auto simp: onClientData_def onData_def split: prod.splits option.splits)

lemma consistent_onTimeout: "consistent s \<Longrightarrow> consistent (onTimeout t ms route s)"
  by (auto simp: onTimeout_def consistent_reject split: option.splits)

lemma onTimeout_removes:
  assumes "consistent s"
  shows "map_of (pending (onTimeout t ms route s)) t = None"
proof (cases "map_of (pending s) t")
  case None
  then show ?thesis by (simp add: onTimeout_def)
next
  case (Some p)
  with consistent_entry(1) [OF assms Some] show ?thesis
    by (simp add: onTimeout_def pending_reject_def delete_conv')
qed

lemma consistent_timer_off:
  assumes c: "consistent s" and n: "map_of (pending s) t = None" and tm: "timers s t \<noteq> None"
  shows "consistent (s\<lparr>timers := (timers s)(t \<mapsto> tm'\<lparr>t_active := False\<rparr>)\<rparr>)"
proof -
  from c have t: "table_ok s" and h: "heap_ok s" and tr: "trace_ok s"
    by (simp_all add: consistent_def)
  let ?s = "s\<lparr>timers := (timers s)(t \<mapsto> tm'\<lparr>t_active := False\<rparr>)\<rparr>"
  have "table_ok ?s"
    using t n unfolding table_ok_def by auto
  moreover have "heap_ok ?s"
    using h tm unfolding heap_ok_def by auto
  moreover have "trace_ok ?s"
    using tr unfolding trace_ok_def by simp
  ultimately show ?thesis
    by (simp add: consistent_def)
qed

lemma onTimeout_timers_None: "(timers (onTimeout t ms route s) i = None) = (timers s i = None)"
  by (auto simp: onTimeout_def pending_reject_def split: option.splits)

lemma consistent_timerFires:
  assumes "consistent s"
  shows "consistent (timerFires t s)"
proof (cases "timers s t")
  case None
  with assms show ?thesis by (simp add: timerFires_def)
next
  case (Some tm)
  show ?thesis
  proof (cases "t_active tm")
    case False
    with Some assms show ?thesis by (simp add: timerFires_def)
  next
    case True
    let ?s' = "onTimeout t (t_ms tm) (t_route tm) s"
    have "timers ?s' t \<noteq> None"
      using Some by (simp add: onTimeout_timers_None)
    from consistent_timer_off [OF consistent_onTimeout [OF assms] onTimeout_removes [OF assms] this]
    show ?thesis
      using Some True by (simp add: timerFires_def Let_def)
  qed
qed

lemma consistent_connect:
  "consistent s \<Longrightarrow> connect deps outcome s = Inr s' \<Longrightarrow> consistent s'"
  by (auto simp: connect_def onConnect_def split: connect_outcome.splits if_splits)

lemma consistent_onClientClose: "consistent s \<Longrightarrow> consistent (onClientClose s)"
  by (simp add: onClientClose_def)


lemma reject_all:
  assumes "consistent s" "distinct (map messageId reqs)"
    and "\<forall>r \<in> set reqs. map_of (pending s) (messageId r) = Some r"
  shows "consistent (foldl (\<lambda>st req. pending_reject req (ConnectionLostError (type req)) st) s reqs)"
  using assms
proof (induction reqs arbitrary: s)
  case Nil
  then show ?case by simp
next
  case (Cons r reqs)
  let ?s1 = "pending_reject r (ConnectionLostError (type r)) s"
  from Cons.prems have r: "map_of (pending s) (messageId r) = Some r"
    by simp
  have "consistent ?s1"
    by (rule consistent_reject [OF Cons.prems(1) r])
  moreover have "distinct (map messageId reqs)"
    using Cons.prems(2) by simp
  moreover have "map_of (pending ?s1) (messageId x) = Some x" if "x \<in> set reqs" for x
  proof -
    from that Cons.prems(2) have "messageId x \<noteq> messageId r"
      by (force simp: image_iff)
    moreover from that Cons.prems(3) have "map_of (pending s) (messageId x) = Some x"
      by simp
    ultimately show ?thesis
      by (simp add: pending_reject_def delete_conv')
  qed
  ultimately show ?case
    using Cons.IH [of ?s1] by simp
qed

lemma pending_values:
  assumes "consistent s"
  shows "map messageId (map snd (pending s)) = map fst (pending s)"
    and "\<forall>r \<in> set (map snd (pending s)). map_of (pending s) (messageId r) = Some r"
proof -
  from assms have t: "table_ok s"
    by (simp add: consistent_def)
  have m: "messageId p = i" if "(i, p) \<in> set (pending s)" for i p
    using table_okD(2) [OF t, of i p] table_okD(1) [OF t] that by simp
  then show "map messageId (map snd (pending s)) = map fst (pending s)"
    by auto
  show "\<forall>r \<in> set (map snd (pending s)). map_of (pending s) (messageId r) = Some r"
    using m table_okD(1) [OF t] by auto
qed

lemma reject_all_settled:
  "settled (foldl (\<lambda>st req. pending_reject req (ConnectionLostError (type req)) st) s reqs)
     = settled s @ map (\<lambda>r. (messageId r, Rejected (ConnectionLostError (type r)))) reqs"
  by (induction reqs arbitrary: s) (simp_all add: pending_reject_def)

lemma reject_all_promises_other:
  "i \<notin> messageId ` set reqs \<Longrightarrow>
   promises (foldl (\<lambda>st req. pending_reject req (ConnectionLostError (type req)) st) s reqs) i = promises s i"
  by (induction reqs arbitrary: s) (auto simp: pending_reject_def split: option.splits)

lemma reject_all_frame:
  "client (foldl (\<lambda>st req. pending_reject req (ConnectionLostError (type req)) st) s reqs) = client s"
  "isConnected (foldl (\<lambda>st req. pending_reject req (ConnectionLostError (type req)) st) s reqs) = isConnected s"
  "closes (foldl (\<lambda>st req. pending_reject req (ConnectionLostError (type req)) st) s reqs) = closes s"
  "messageIds (foldl (\<lambda>st req. pending_reject req (ConnectionLostError (type req)) st) s reqs) = messageIds s"
  "unhandled (foldl (\<lambda>st req. pending_reject req (ConnectionLostError (type req)) st) s reqs) = unhandled s"
  by (induction reqs arbitrary: s) (simp_all add: pending_reject_def)

lemma reject_all_pending:
  "map fst (pending (foldl (\<lambda>st req. pending_reject req (ConnectionLostError (type req)) st) s reqs))
     = filter (\<lambda>k. k \<notin> messageId ` set reqs) (map fst (pending s))"
proof (induction reqs arbitrary: s)
  case Nil
  then show ?case by simp
next
  case (Cons r reqs)
  have "map fst (AList.delete k al) = filter (\<lambda>x. x \<noteq> k) (map fst al)" for k :: int and al :: "(int \<times> pending_request) list"
    by (induction al) auto
  with Cons show ?case
    by (simp add: pending_reject_def)
qed


lemma rejected_all_consistent:
  assumes "consistent s"
  shows "consistent (rejected_all s)" "pending (rejected_all s) = []"
proof -
  note pv = pending_values [OF assms]
  have d: "distinct (map messageId (map snd (pending s)))"
    using assms by (simp only: pv(1)) (simp add: consistent_def table_ok_def)
  show "consistent (rejected_all s)"
    unfolding rejected_all_def by (rule reject_all [OF assms d pv(2)])
  have "map fst (pending (rejected_all s)) = []"
    unfolding rejected_all_def reject_all_pending
    using pv(1) by (simp add: filter_empty_conv) (metis image_eqI list.set_map)
  then show "pending (rejected_all s) = []"
    by simp
qed

lemma onDisconnect_eq:
  assumes "client s \<noteq> None"
  shows "onDisconnect s = Inr ((rejected_all
           (client_off ''error'' ''onClientError''
             (client_off ''stream'' ''onStream''
               (client_off ''malformedRequest'' ''onMalformedRequest''
                 (client_off ''message'' ''onMessage''
                   (client_off ''disconnect'' ''onDisconnect'' (s\<lparr>isConnected := False\<rparr>)))))))
           \<lparr>pending := [], closes := closes s + 1\<rparr>)"
  using assms
  by (auto simp: onDisconnect_def Let_def rejected_all_def reject_all_frame client_off_def)

lemma consistent_onDisconnect:
  assumes c: "consistent s" and r: "onDisconnect s = Inr s'"
  shows "consistent s'"
proof -
  from r have cl: "client s \<noteq> None"
    by (auto simp: onDisconnect_def split: option.splits)
  let ?s2 = "client_off ''error'' ''onClientError''
             (client_off ''stream'' ''onStream''
               (client_off ''malformedRequest'' ''onMalformedRequest''
                 (client_off ''message'' ''onMessage''
                   (client_off ''disconnect'' ''onDisconnect'' (s\<lparr>isConnected := False\<rparr>)))))"
  have c2: "consistent ?s2"
    using c by simp
  note ra = rejected_all_consistent [OF c2]
  have "(rejected_all ?s2)\<lparr>pending := []\<rparr> = (rejected_all ?s2)\<lparr>pending := pending (rejected_all ?s2)\<rparr>"
    by (simp only: ra(2))
  then have "(rejected_all ?s2)\<lparr>pending := []\<rparr> = rejected_all ?s2"
    by simp
  with ra(1) have "consistent ((rejected_all ?s2)\<lparr>pending := []\<rparr>)"
    by simp
  then have "consistent (((rejected_all ?s2)\<lparr>pending := []\<rparr>)\<lparr>closes := closes s + 1\<rparr>)"
    by (simp only: consistent_closes)
  moreover from r onDisconnect_eq [OF cl]
  have "s' = ((rejected_all ?s2)\<lparr>pending := []\<rparr>)\<lparr>closes := closes s + 1\<rparr>"
    by simp
  ultimately show ?thesis
    by simp
qed

lemma consistent_step:
  assumes "consistent s"
  shows "consistent (step deps s ev)"
proof (cases ev)
  case (Connect outcome)
  with assms consistent_connect [OF assms, of deps outcome] show ?thesis
    by (cases "connect deps outcome s") simp_all
next
  case (Request route data options)
  with assms consistent_request [OF assms, of route data options] show ?thesis
    by (cases "request route data options s") auto
next
  case (Data bytes)
  with assms show ?thesis by (simp add: consistent_onClientData)
next
  case (TimerFires t)
  with assms show ?thesis by (simp add: consistent_timerFires)
next
  case Close
  with assms show ?thesis by (simp add: consistent_onClientClose)
next
  case Disconnect
  with assms consistent_onDisconnect [OF assms] show ?thesis
    by (cases "onDisconnect s") simp_all
qed

lemma consistent_run: "consistent s \<Longrightarrow> consistent (run deps s evs)"
  unfolding run_def by (induction evs arbitrary: s) (simp_all add: consistent_step)


lemma extends_refl [simp]: "extends s s"
  by (simp add: extends_def)

lemma extendsD:
  assumes "extends s s'"
  shows "set (settled s) \<subseteq> set (settled s')" "messageIds s \<le> messageIds s'"
    "client s \<noteq> None \<Longrightarrow> client s' \<noteq> None"
    "timers s i = Some tm \<Longrightarrow> i \<le> messageIds s \<Longrightarrow>
       \<exists>tm'. timers s' i = Some tm' \<and> t_ms tm' = t_ms tm \<and> t_route tm' = t_route tm"
  using assms unfolding extends_def by blast+

lemma extends_trans:
  assumes a: "extends s s'" and b: "extends s' s''"
  shows "extends s s''"
  unfolding extends_def
proof (intro conjI allI impI)
  show "set (settled s) \<subseteq> set (settled s'')"
    using extendsD(1) [OF a] extendsD(1) [OF b] by blast
  show "messageIds s \<le> messageIds s''"
    using extendsD(2) [OF a] extendsD(2) [OF b] by simp
  show "client s'' \<noteq> None" if "client s \<noteq> None"
    using extendsD(3) [OF b extendsD(3) [OF a that]] .
  fix i tm assume t: "timers s i = Some tm" and i: "i \<le> messageIds s"
  from extendsD(4) [OF a t i] obtain tm' where
    1: "timers s' i = Some tm'" "t_ms tm' = t_ms tm" "t_route tm' = t_route tm"
    by blast
  from i extendsD(2) [OF a] have "i \<le> messageIds s'"
    by simp
  from extendsD(4) [OF b 1(1) this] 1(2,3)
  show "\<exists>tm'. timers s'' i = Some tm' \<and> t_ms tm' = t_ms tm \<and> t_route tm' = t_route tm"
    by auto
qed

lemma extends_timers:
  assumes "set (settled s) \<subseteq> set (settled s')" "messageIds s' = messageIds s" "client s' = client s"
    and "\<And>i tm. timers s i = Some tm \<Longrightarrow>
           \<exists>tm'. timers s' i = Some tm' \<and> t_ms tm' = t_ms tm \<and> t_route tm' = t_route tm"
  shows "extends s s'"
  using assms unfolding extends_def by simp

lemma extends_reject: "extends s (pending_reject p e s)"
proof (rule extends_timers)
  fix i tm assume "timers s i = Some tm"
  then show "\<exists>tm'. timers (pending_reject p e s) i = Some tm' \<and> t_ms tm' = t_ms tm \<and> t_route tm' = t_route tm"
    by (cases "timeout p"; cases "timers s (the (timeout p))") (auto simp: pending_reject_def)
qed (auto simp: pending_reject_def)

lemma extends_resolve: "extends s (pending_resolve p v s)"
proof (rule extends_timers)
  fix i tm assume "timers s i = Some tm"
  then show "\<exists>tm'. timers (pending_resolve p v s) i = Some tm' \<and> t_ms tm' = t_ms tm \<and> t_route tm' = t_route tm"
    by (cases "timeout p"; cases "timers s (the (timeout p))") (auto simp: pending_resolve_def)
qed (auto simp: pending_resolve_def)

lemma extends_frame:
  assumes "settled s' = settled s" "messageIds s' = messageIds s" "timers s' = timers s"
    "client s \<noteq> None \<Longrightarrow> client s' \<noteq> None"
  shows "extends s s'"
  using assms by (simp add: extends_def)

lemma extends_onError [simp]: "extends s (catch_onError e s)"
  by (rule extends_frame) (simp_all add: catch_onError_def onError_def)

lemma extends_handleStream: "handleStream deps data s = Inr s' \<Longrightarrow> extends s s'"
  by (cases "IpcStreamSchema deps data")
     (auto simp: handleStream_def stream_write_def intro!: extends_frame split: option.splits)

lemma extends_statuses: "extends s (s\<lparr>statuses := x\<rparr>)"
  by (rule extends_frame) simp_all

lemma extends_handleEnd:
  assumes r: "handleEnd deps data s = Inr s'"
  shows "extends s s'"
proof (cases "IpcResponseSchema deps data")
  case (Validation res err)
  show ?thesis
  proof (cases res)
    case None
    with r Validation show ?thesis by (simp add: handleEnd_def)
  next
    case (Some v)
    show ?thesis
    proof (cases "map_of (pending s) (r_id v)")
      case None
      with r Validation Some show ?thesis by (simp add: handleEnd_def)
    next
      case (Some p)
      define s1 where "s1 = s\<lparr>statuses := (statuses s)(response p \<mapsto> r_status v)\<rparr>"
      have e1: "extends s s1"
        unfolding s1_def by (rule extends_statuses)
      from r Validation \<open>res = Some v\<close> Some
      consider e where "s' = pending_reject p e s1" | x where "s' = pending_resolve p x s1"
        by (cases "IpcErrorSchema deps (r_data v)")
           (auto simp: handleEnd_def Let_def s1_def split: option.splits if_splits)
      then show ?thesis
        by cases (auto intro: extends_trans [OF e1] extends_reject extends_resolve)
    qed
  qed
qed

lemma extends_onMessage: "extends s (onMessage deps data s)"
  by (cases "handleEnd deps data s") (simp_all add: onMessage_def extends_handleEnd)

lemma extends_onStream: "extends s (onStream deps data s)"
  by (cases "handleStream deps data s") (simp_all add: onStream_def extends_handleStream)

lemma extends_deliver: "extends s (snd (deliver deps res s))"
  by (simp add: deliver_snd dispatched_eq extends_onMessage extends_onStream)

lemma extends_onData_events: "extends s (snd (onData_events deps events s))"
proof (induction events arbitrary: s)
  case Nil
  then show ?case by simp
next
  case (Cons event events)
  show ?case
  proof (cases "decode_event event")
    case (Inl e)
    then show ?thesis by simp
  next
    case (Inr res)
    obtain x s1 where d: "deliver deps res s = (x, s1)"
      by (cases "deliver deps res s")
    with extends_deliver [of s deps res] have e1: "extends s s1"
      by simp
    from Inr d e1 extends_trans [OF e1 Cons.IH [of s1]] show ?thesis
      by (cases x) simp_all
  qed
qed

lemma extends_onClientData: "extends s (onClientData deps data s)"
proof -
  obtain e s' where r: "onData deps data s = (e, s')"
    by (cases "onData deps data s")
  with extends_onData_events [of s deps "frames data"]
  have e1: "extends s s'"
    by (simp add: onData_def)
  show ?thesis
  proof (cases e)
    case None
    with r e1 show ?thesis by (simp add: onClientData_def)
  next
    case (Some x)
    with r extends_trans [OF e1 extends_onError [of s' x]] show ?thesis
      by (simp add: onClientData_def)
  qed
qed

lemma extends_onTimeout: "extends s (onTimeout t ms route s)"
  by (cases "map_of (pending s) t") (simp_all add: onTimeout_def extends_reject)

lemma extends_timer_off:
  assumes "timers s t = Some tm"
  shows "extends s (s\<lparr>timers := (timers s)(t \<mapsto> tm\<lparr>t_active := False\<rparr>)\<rparr>)"
  using assms by (auto simp: extends_def)

lemma extends_timerFires: "extends s (timerFires t s)"
proof (cases "timers s t")
  case None
  then show ?thesis by (simp add: timerFires_def)
next
  case (Some tm)
  show ?thesis
  proof (cases "t_active tm")
    case False
    with Some show ?thesis by (simp add: timerFires_def)
  next
    case True
    let ?s' = "onTimeout t (t_ms tm) (t_route tm) s"
    have e1: "extends s ?s'"
      by (rule extends_onTimeout)
    have "extends s (?s'\<lparr>timers := (timers ?s')(t \<mapsto> tm\<lparr>t_active := False\<rparr>)\<rparr>)"
      unfolding extends_def
    proof (intro conjI allI impI)
      fix i x assume "timers s i = Some x" "i \<le> messageIds s"
      with extendsD(4) [OF e1, of i x] Some
      show "\<exists>tm'. timers (?s'\<lparr>timers := (timers ?s')(t \<mapsto> tm\<lparr>t_active := False\<rparr>)\<rparr>) i = Some tm'
                \<and> t_ms tm' = t_ms x \<and> t_route tm' = t_route x"
        by (cases "i = t") auto
    qed (use extendsD(1,2,3) [OF e1] in auto)
    with Some True show ?thesis
      by (simp add: timerFires_def Let_def)
  qed
qed

lemma extends_request:
  assumes r: "request route data options s = Inr (i, s')"
  shows "extends s s'"
proof -
  note f = request_fields [OF r]
  have "client s' \<noteq> None"
    using r by (auto simp: request_def Let_def send_def client_write_def split: option.splits)
  moreover have "\<exists>tm'. timers s' j = Some tm' \<and> t_ms tm' = t_ms tm \<and> t_route tm' = t_route tm"
    if "timers s j = Some tm" "j \<le> messageIds s" for j tm
    using that f(1) unfolding f(5) by (auto split: option.splits)
  ultimately show ?thesis
    unfolding extends_def using f(1) by (simp add: f(6,7))
qed

lemma extends_connect: "connect deps outcome s = Inr s' \<Longrightarrow> extends s s'"
  by (auto simp: connect_def onConnect_def client_on_def intro!: extends_frame
           split: connect_outcome.splits if_splits)

lemma extends_onClientClose: "extends s (onClientClose s)"
  by (auto simp: onClientClose_def client_off_def intro!: extends_frame)

lemma extends_reject_all:
  "extends s (foldl (\<lambda>st req. pending_reject req (ConnectionLostError (type req)) st) s reqs)"
proof (induction reqs arbitrary: s)
  case Nil
  then show ?case by simp
next
  case (Cons r reqs)
  from extends_trans [OF extends_reject Cons.IH] show ?case
    by simp
qed

lemma extends_onDisconnect:
  assumes r: "onDisconnect s = Inr s'"
  shows "extends s s'"
proof -
  from r have cl: "client s \<noteq> None"
    by (auto simp: onDisconnect_def split: option.splits)
  let ?s2 = "client_off ''error'' ''onClientError''
             (client_off ''stream'' ''onStream''
               (client_off ''malformedRequest'' ''onMalformedRequest''
                 (client_off ''message'' ''onMessage''
                   (client_off ''disconnect'' ''onDisconnect'' (s\<lparr>isConnected := False\<rparr>)))))"
  have e1: "extends s ?s2"
    by (rule extends_frame) (auto simp: client_off_def)
  have e2: "extends ?s2 (rejected_all ?s2)"
    unfolding rejected_all_def by (rule extends_reject_all)
  have e3: "extends (rejected_all ?s2) ((rejected_all ?s2)\<lparr>pending := [], closes := closes s + 1\<rparr>)"
    by (rule extends_frame) simp_all
  from r onDisconnect_eq [OF cl] have "s' = (rejected_all ?s2)\<lparr>pending := [], closes := closes s + 1\<rparr>"
    by simp
  with extends_trans [OF e1 extends_trans [OF e2 e3]] show ?thesis
    by simp
qed

lemma extends_step: "extends s (step deps s ev)"
proof (cases ev)
  case (Connect outcome)
  with extends_connect [of deps outcome s] show ?thesis
    by (cases "connect deps outcome s") simp_all
next
  case (Request route data options)
  with extends_request [of route data options s] show ?thesis
    by (cases "request route data options s") auto
next
  case (Data bytes)
  then show ?thesis by (simp add: extends_onClientData)
next
  case (TimerFires t)
  then show ?thesis by (simp add: extends_timerFires)
next
  case Close
  then show ?thesis by (simp add: extends_onClientClose)
next
  case Disconnect
  with extends_onDisconnect [of s] show ?thesis
    by (cases "onDisconnect s") simp_all
qed

lemma extends_run: "extends s (run deps s evs)"
  unfolding run_def
proof (induction evs arbitrary: s)
  case Nil
  then show ?case by simp
next
  case (Cons ev evs)
  from extends_trans [OF extends_step Cons.IH] show ?case
    by simp
qed

lemma run_append: "run deps s (evs @ evs') = run deps (run deps s evs) evs'"
  by (simp add: run_def)

lemma reachable_consistent: "consistent (run deps (IronfishTcpClient h p) evs)"
  by (rule consistent_run [OF consistent_new])

lemma reachable_client: "client (run deps (IronfishTcpClient h p) evs) \<noteq> None"
  using extendsD(3) [OF extends_run [of "IronfishTcpClient h p" deps evs]]
  by (simp add: IronfishTcpClient_def)

lemma trace_okD:
  assumes "trace_ok s"
  shows "count_list (map fst (settled s)) i =
           (case promises s i of None \<Rightarrow> 0 | Some q \<Rightarrow> if q = Pending then 0 else 1)"
    and "(i, q) \<in> set (settled s) \<Longrightarrow> promises s i = Some q \<and> q \<noteq> Pending"
  using assms unfolding trace_ok_def by blast+

lemma settled_in_trace:
  assumes c: "consistent s" and p: "promises s i = Some q" and q: "q \<noteq> Pending"
  shows "(i, q) \<in> set (settled s)"
proof -
  from c have tr: "trace_ok s"
    by (simp add: consistent_def)
  from trace_okD(1) [OF tr, of i] p q have "count_list (map fst (settled s)) i = 1"
    by simp
  then have "i \<in> set (map fst (settled s))"
    by (metis count_list_0_iff zero_neq_one)
  then obtain q' where q': "(i, q') \<in> set (settled s)"
    by auto
  from trace_okD(2) [OF tr q'] p show ?thesis
    using q' by simp
qed

section \<open>\<open>JSON.parse\<close> inverts \<open>JSON.stringify\<close>\<close>

lemma hex_digit_table:
  "\<forall>n \<in> set [0..<16]. hex_val (digit_char n) = Some n \<and> digit_char n \<noteq> CHR 0x0C \<and> \<not> is_js_space (digit_char n)"
  by code_simp

lemma dec_digit_table:
  "\<forall>n \<in> set [0..<10]. is_digit (digit_char n) \<and> of_char (digit_char n) - 48 = n
      \<and> digit_char n \<noteq> CHR ''-'' \<and> (digit_char n = CHR ''0'') = (n = 0)"
  by code_simp

lemma hex_val_digit_char: "n < 16 \<Longrightarrow> hex_val (digit_char n) = Some n"
  using hex_digit_table by simp

lemma digit_char_props:
  assumes "n < 10"
  shows "is_digit (digit_char n)" "of_char (digit_char n) - 48 = n"
    "digit_char n \<noteq> CHR ''-''" "(digit_char n = CHR ''0'') = (n = 0)"
  using dec_digit_table assms by simp_all

lemma digit_char_plain:
  assumes "n < 16"
  shows "digit_char n \<noteq> CHR 0x0C" "\<not> is_js_space (digit_char n)"
  using hex_digit_table assms by simp_all

lemma nat_digits_nonempty: "nat_digits n \<noteq> []"
  by (subst nat_digits.simps) simp

lemma nat_digits_digits: "c \<in> set (nat_digits n) \<Longrightarrow> is_digit c"
proof (induction n arbitrary: c rule: nat_digits.induct)
  case (1 n)
  show ?case
  proof (cases "n < 10")
    case True
    with "1.prems" show ?thesis
      by (subst (asm) nat_digits.simps) (simp add: digit_char_props)
  next
    case False
    with "1.prems" "1.IH" show ?thesis
      by (subst (asm) nat_digits.simps) (auto simp: digit_char_props)
  qed
qed

lemma digits_val_snoc: "digits_val (ds @ [c]) = 10 * digits_val ds + (of_char c - 48)"
  by (simp add: digits_val_def)

lemma digits_val_nat_digits: "digits_val (nat_digits n) = n"
proof (induction n rule: nat_digits.induct)
  case (1 n)
  show ?case
  proof (cases "n < 10")
    case True
    then show ?thesis
      by (subst nat_digits.simps) (simp add: digits_val_def digit_char_props)
  next
    case False
    with "1.IH" show ?thesis
      by (subst nat_digits.simps) (simp add: digits_val_snoc digit_char_props)
  qed
qed

lemma nat_digits_hd: "0 < n \<Longrightarrow> hd (nat_digits n) \<noteq> CHR ''0''"
proof (induction n rule: nat_digits.induct)
  case (1 n)
  show ?case
  proof (cases "n < 10")
    case True
    with "1.prems" show ?thesis
      by (subst nat_digits.simps) (simp add: digit_char_props)
  next
    case False
    with "1.IH" show ?thesis
      by (subst nat_digits.simps) (simp add: nat_digits_nonempty)
  qed
qed

lemma nat_digits_length: "1 < length (nat_digits n) \<Longrightarrow> 0 < n"
  by (subst (asm) nat_digits.simps) (auto split: if_splits)

lemma follows_not_digit:
  assumes "follows rest"
  shows "takeWhile is_digit rest = []" "dropWhile is_digit rest = rest"
    "\<not> (rest \<noteq> [] \<and> (hd rest = CHR ''.'' \<or> hd rest = CHR ''e'' \<or> hd rest = CHR ''E''))"
  using assms by (cases rest; auto simp: follows_def is_digit_def)+

lemma parse_number_digits:
  assumes "follows rest"
  shows "parse_number (Number_toString i @ rest) = Some (JNum i, rest)"
proof -
  have tw: "takeWhile is_digit (nat_digits n @ rest) = nat_digits n"
       "dropWhile is_digit (nat_digits n @ rest) = rest" for n
    using follows_not_digit(1,2) [OF assms] nat_digits_digits [of _ n]
    by (simp_all add: takeWhile_append2 dropWhile_append2)
  have lead: "\<not> (1 < length (nat_digits n) \<and> hd (nat_digits n) = CHR ''0'')" for n
    using nat_digits_length [of n] nat_digits_hd [of n] by blast
  have nh: "hd (nat_digits n @ rest) \<noteq> CHR ''-''" for n
    using nat_digits_nonempty [of n] nat_digits_digits [of "hd (nat_digits n)" n]
    by (auto simp: is_digit_def hd_append)
  show ?thesis
  proof (cases "i < 0")
    case True
    then show ?thesis
      using tw [of "nat (- i)"] lead [of "nat (- i)"] follows_not_digit(3) [OF assms]
      by (simp add: parse_number_def Number_toString_def Let_def nat_digits_nonempty digits_val_nat_digits)
  next
    case False
    then show ?thesis
      using tw [of "nat i"] lead [of "nat i"] nh [of "nat i"] follows_not_digit(3) [OF assms]
      by (simp add: parse_number_def Number_toString_def Let_def nat_digits_nonempty digits_val_nat_digits)
  qed
qed

lemma hex_val_zero: "hex_val (CHR ''0'') = Some 0"
  by (simp add: hex_val_def)

lemma parse_chars_escape: "parse_chars (escape_char c @ tail) = cons_fst c (parse_chars tail)"
proof -
  consider (special) "c = CHR 0x08 \<or> c = CHR 0x09 \<or> c = CHR 0x0A \<or> c = CHR 0x0C \<or> c = CHR 0x0D
                       \<or> c = QUOTE \<or> c = BACKSLASH"
    | (control) "c \<noteq> CHR 0x08" "c \<noteq> CHR 0x09" "c \<noteq> CHR 0x0A" "c \<noteq> CHR 0x0C" "c \<noteq> CHR 0x0D"
                "c \<noteq> QUOTE" "c \<noteq> BACKSLASH" "(of_char c :: nat) < 32"
    | (plain) "c \<noteq> CHR 0x08" "c \<noteq> CHR 0x09" "c \<noteq> CHR 0x0A" "c \<noteq> CHR 0x0C" "c \<noteq> CHR 0x0D"
                "c \<noteq> QUOTE" "c \<noteq> BACKSLASH" "\<not> (of_char c :: nat) < 32"
    by blast
  then show ?thesis
  proof cases
    case special
    then show ?thesis
      by (elim disjE) (simp_all add: escape_char_def unescape_def QUOTE_def BACKSLASH_def)
  next
    case control
    let ?n = "of_char c :: nat"
    have "?n div 16 < 16" "?n mod 16 < 16"
      using control(8) by simp_all
    then have "hex4 (CHR ''0'') (CHR ''0'') (digit_char (?n div 16)) (digit_char (?n mod 16)) = Some ?n"
      by (simp add: hex4_def hex_val_zero hex_val_digit_char)
    moreover have "?n < 256"
      using control(8) by simp
    ultimately show ?thesis
      using control by (simp add: escape_char_def QUOTE_def BACKSLASH_def)
  next
    case plain
    then show ?thesis
      by (simp add: escape_char_def)
  qed
qed

lemma parse_chars_quoted:
  "parse_chars (concat (map escape_char s) @ QUOTE # rest) = Some (s, rest)"
  by (induction s) (simp_all add: parse_chars_escape cons_fst_def)

lemma join_commas_Cons: "xs \<noteq> [] \<Longrightarrow> join_commas (x # xs) = x @ CHR '','' # join_commas xs"
  by (cases xs) simp_all

lemma skip_ws_Cons: "\<not> is_ws c \<Longrightarrow> skip_ws (c # r) = c # r"
  by (simp add: skip_ws_def)

lemma follows_simps [simp]:
  "follows []" "follows (CHR '','' # r)" "follows (CHR '']'' # r)" "follows (CHR ''}'' # r)"
  by (simp_all add: follows_def)

lemma Number_toString_hd:
  "\<exists>c r. Number_toString i = c # r \<and> (c = CHR ''-'' \<or> is_digit c)"
proof (cases "i < 0")
  case True
  then show ?thesis by (simp add: Number_toString_def)
next
  case False
  obtain c r where cr: "nat_digits (nat i) = c # r"
    using nat_digits_nonempty [of "nat i"] by (cases "nat_digits (nat i)") auto
  with nat_digits_digits [of c "nat i"] False show ?thesis
    by (simp add: Number_toString_def)
qed

lemma parse_value_number:
  assumes "follows rest"
  shows "parse_value (Number_toString i @ rest) = Some (JNum i, rest)"
proof -
  from Number_toString_hd [of i] obtain c r where cr: "Number_toString i = c # r"
    and c: "c = CHR ''-'' \<or> is_digit c"
    by blast
  from c have n: "\<not> is_ws c" "c \<noteq> CHR ''[''" "c \<noteq> CHR ''{''" "c \<noteq> QUOTE"
     "c \<noteq> CHR ''n''" "c \<noteq> CHR ''t''" "c \<noteq> CHR ''f''"
    by (auto simp: is_digit_def is_ws_def QUOTE_def)
  have "parse_value (c # r @ rest) = parse_number (c # r @ rest)"
    using n by (subst parse_value.simps) (simp add: skip_ws_Cons)
  with parse_number_digits [OF assms, of i] cr show ?thesis
    by simp
qed

lemma parse_value_string:
  "parse_value (QuoteJSONString s @ rest) = Some (JStr s, rest)"
  by (subst parse_value.simps)
     (simp add: QuoteJSONString_def skip_ws_Cons is_ws_def QUOTE_def parse_chars_quoted [unfolded QUOTE_def])

lemma stringify_hd:
  "\<exists>c r. JSON_stringify v = c # r \<and> \<not> is_ws c \<and> c \<noteq> CHR '']'' \<and> c \<noteq> CHR ''}''"
proof (cases v)
  case (JNum i)
  from Number_toString_hd [of i] obtain c r where "Number_toString i = c # r" "c = CHR ''-'' \<or> is_digit c"
    by blast
  with JNum show ?thesis
    by (auto simp: is_digit_def is_ws_def)
qed (auto simp: is_ws_def QuoteJSONString_def QUOTE_def)

lemma parse_elems_join:
  assumes "vs \<noteq> []"
    and "\<And>v rest. v \<in> set vs \<Longrightarrow> follows rest \<Longrightarrow> parse_value (JSON_stringify v @ rest) = Some (v, rest)"
  shows "parse_elems (join_commas (map JSON_stringify vs) @ CHR '']'' # rest) = Some (vs, rest)"
  using assms
proof (induction vs rule: list_nonempty_induct)
  case (single v)
  then show ?case
    by (subst parse_elems.simps) (simp add: skip_ws_Cons is_ws_def)
next
  case (cons v vs)
  have "parse_elems (join_commas (map JSON_stringify vs) @ CHR '']'' # rest) = Some (vs, rest)"
    using cons.IH cons.prems by simp
  moreover have "parse_value (JSON_stringify v @ CHR '','' # join_commas (map JSON_stringify vs) @ CHR '']'' # rest)
      = Some (v, CHR '','' # join_commas (map JSON_stringify vs) @ CHR '']'' # rest)"
    using cons.prems [of v] by simp
  ultimately show ?case
    using cons.hyps
    by (subst parse_elems.simps) (simp add: join_commas_Cons skip_ws_Cons is_ws_def cons_fst_def)
qed

lemma parse_members_join:
  assumes "kvs \<noteq> []"
    and "\<And>kv rest. kv \<in> set kvs \<Longrightarrow> follows rest \<Longrightarrow>
            parse_value (JSON_stringify (snd kv) @ rest) = Some (snd kv, rest)"
  shows "parse_members (join_commas (map member_text kvs) @ CHR ''}'' # rest) = Some (kvs, rest)"
  using assms
proof (induction kvs rule: list_nonempty_induct)
  case (single kv)
  have "parse_chars (concat (map escape_char (fst kv)) @ QUOTE # CHR '':'' # JSON_stringify (snd kv) @ CHR ''}'' # rest)
      = Some (fst kv, CHR '':'' # JSON_stringify (snd kv) @ CHR ''}'' # rest)"
    by (rule parse_chars_quoted)
  moreover have "parse_value (JSON_stringify (snd kv) @ CHR ''}'' # rest) = Some (snd kv, CHR ''}'' # rest)"
    using single [of kv] by simp
  ultimately show ?case
    by (subst parse_members.simps)
       (simp add: member_text_def QuoteJSONString_def skip_ws_Cons is_ws_def QUOTE_def)
next
  case (cons kv kvs)
  let ?tail = "join_commas (map member_text kvs) @ CHR ''}'' # rest"
  have "parse_members ?tail = Some (kvs, rest)"
    using cons.IH cons.prems by simp
  moreover have "parse_chars (concat (map escape_char (fst kv)) @ QUOTE # CHR '':'' # JSON_stringify (snd kv) @ CHR '','' # ?tail)
      = Some (fst kv, CHR '':'' # JSON_stringify (snd kv) @ CHR '','' # ?tail)"
    by (rule parse_chars_quoted)
  moreover have "parse_value (JSON_stringify (snd kv) @ CHR '','' # ?tail) = Some (snd kv, CHR '','' # ?tail)"
    using cons.prems [of kv] by simp
  ultimately show ?case
    using cons.hyps
    by (subst parse_members.simps)
       (simp add: join_commas_Cons member_text_def QuoteJSONString_def skip_ws_Cons is_ws_def QUOTE_def cons_fst_def)
qed

lemma update_fresh: "k \<notin> fst ` set al \<Longrightarrow> AList.update k v al = al @ [(k, v)]"
  by (induction al) auto

lemma object_of_members_distinct_aux:
  "distinct (map fst kvs) \<Longrightarrow> fst ` set acc \<inter> fst ` set kvs = {} \<Longrightarrow>
   foldl (\<lambda>obj kv. AList.update (fst kv) (snd kv) obj) acc kvs = acc @ kvs"
proof (induction kvs arbitrary: acc)
  case Nil
  then show ?case by simp
next
  case (Cons kv kvs)
  have "AList.update (fst kv) (snd kv) acc = acc @ [kv]"
    using Cons.prems(2) by (simp add: update_fresh)
  moreover have "fst ` set (acc @ [kv]) \<inter> fst ` set kvs = {}"
    using Cons.prems by auto
  ultimately show ?case
    using Cons.IH [of "acc @ [kv]"] Cons.prems(1) by simp
qed

lemma object_of_members_distinct: "distinct (map fst kvs) \<Longrightarrow> object_of_members kvs = kvs"
  using object_of_members_distinct_aux [of kvs "[]"] by (simp add: object_of_members_def)

lemma parse_stringify:
  "representable v \<Longrightarrow> follows rest \<Longrightarrow> parse_value (JSON_stringify v @ rest) = Some (v, rest)"
proof (induction v arbitrary: rest)
  case JNull
  then show ?case
    by (subst parse_value.simps) (simp add: skip_ws_Cons is_ws_def QUOTE_def)
next
  case (JBool b)
  then show ?case
    by (subst parse_value.simps) (simp add: skip_ws_Cons is_ws_def QUOTE_def)
next
  case (JNum i)
  then show ?case
    by (simp add: parse_value_number)
next
  case (JStr s)
  then show ?case
    by (simp add: parse_value_string)
next
  case (JArr vs)
  show ?case
  proof (cases "vs = []")
    case True
    then show ?thesis
      by (subst parse_value.simps) (simp add: skip_ws_Cons is_ws_def)
  next
    case False
    have el: "parse_elems (join_commas (map JSON_stringify vs) @ CHR '']'' # rest) = Some (vs, rest)"
      using JArr by (intro parse_elems_join [OF False]) auto
    from False obtain v ws where vs: "vs = v # ws"
      by (cases vs) auto
    from stringify_hd [of v] obtain c r where cr: "JSON_stringify v = c # r" "\<not> is_ws c" "c \<noteq> CHR '']''"
      by blast
    then obtain r' where r': "join_commas (map JSON_stringify vs) @ CHR '']'' # rest = c # r'"
      unfolding vs by (cases ws) auto
    show ?thesis
      using el cr(2,3)
      by (subst parse_value.simps) (simp add: r' skip_ws_Cons is_ws_def)
  qed
next
  case (JObj kvs)
  show ?case
  proof (cases "kvs = []")
    case True
    then show ?thesis
      by (subst parse_value.simps) (simp add: skip_ws_Cons is_ws_def)
  next
    case False
    have "parse_value (JSON_stringify (snd kv) @ rest') = Some (snd kv, rest')"
      if "kv \<in> set kvs" "follows rest'" for kv rest'
      using JObj.IH [of kv "snd kv" rest'] JObj.prems(1) that by (cases kv) auto
    then have me: "parse_members (join_commas (map member_text kvs) @ CHR ''}'' # rest) = Some (kvs, rest)"
      by (intro parse_members_join [OF False]) auto
    from False obtain kv ws where kvs: "kvs = kv # ws"
      by (cases kvs) auto
    obtain r' where r': "join_commas (map member_text kvs) @ CHR ''}'' # rest = QUOTE # r'"
      unfolding kvs by (cases ws) (auto simp: member_text_def QuoteJSONString_def)
    have mt: "(\<lambda>kv. QuoteJSONString (fst kv) @ CHR '':'' # JSON_stringify (snd kv)) = member_text"
      by (simp add: member_text_def fun_eq_iff)
    show ?thesis
      using me JObj.prems(1)
      by (subst parse_value.simps)
         (simp add: mt r' skip_ws_Cons is_ws_def QUOTE_def object_of_members_distinct)
  qed
qed

theorem JSON_parse_stringify: "representable v \<Longrightarrow> JSON_parse (JSON_stringify v) = Some v"
  using parse_stringify [of v "[]"] by (simp add: JSON_parse_def skip_ws_def)

section \<open>Framing\<close>

lemma is_digit_not_delim: "is_digit c \<Longrightarrow> c \<noteq> NODE_IPC_DELIMITER"
  by (auto simp: is_digit_def NODE_IPC_DELIMITER_def)

lemma Number_toString_no_delim: "NODE_IPC_DELIMITER \<notin> set (Number_toString i)"
  using nat_digits_digits is_digit_not_delim
  by (auto simp: Number_toString_def NODE_IPC_DELIMITER_def)

lemma escape_char_no_delim: "NODE_IPC_DELIMITER \<notin> set (escape_char c)"
proof -
  have "digit_char (of_char c mod 16) \<noteq> CHR 0x0C"
    by (rule digit_char_plain) simp
  moreover have "digit_char (of_char c div 16) \<noteq> CHR 0x0C" if "(of_char c :: nat) < 32"
    using that by (intro digit_char_plain) simp
  ultimately show ?thesis
    by (auto simp: escape_char_def NODE_IPC_DELIMITER_def QUOTE_def BACKSLASH_def)
qed

lemma QuoteJSONString_no_delim: "NODE_IPC_DELIMITER \<notin> set (QuoteJSONString s)"
  using escape_char_no_delim by (auto simp: QuoteJSONString_def QUOTE_def NODE_IPC_DELIMITER_def)

lemma join_commas_no_delim:
  "(\<And>x. x \<in> set xs \<Longrightarrow> NODE_IPC_DELIMITER \<notin> set x) \<Longrightarrow> NODE_IPC_DELIMITER \<notin> set (join_commas xs)"
  by (induction xs rule: join_commas.induct) (auto simp: NODE_IPC_DELIMITER_def)

lemma JSON_stringify_no_delim: "NODE_IPC_DELIMITER \<notin> set (JSON_stringify v)"
proof (induction v)
  case (JArr vs)
  have "NODE_IPC_DELIMITER \<notin> set (join_commas (map JSON_stringify vs))"
    using JArr by (intro join_commas_no_delim) auto
  then show ?case
    by (simp add: NODE_IPC_DELIMITER_def)
next
  case (JObj kvs)
  have "NODE_IPC_DELIMITER \<notin> set (join_commas (map member_text kvs))"
  proof (rule join_commas_no_delim)
    fix x assume "x \<in> set (map member_text kvs)"
    then obtain kv where kv: "kv \<in> set kvs" "x = member_text kv"
      by auto
    from JObj [of kv "snd kv"] kv(1) have "NODE_IPC_DELIMITER \<notin> set (JSON_stringify (snd kv))"
      by (cases kv) auto
    with kv(2) QuoteJSONString_no_delim [of "fst kv"] show "NODE_IPC_DELIMITER \<notin> set x"
      by (auto simp: member_text_def NODE_IPC_DELIMITER_def)
  qed
  moreover have "(\<lambda>kv. QuoteJSONString (fst kv) @ CHR '':'' # JSON_stringify (snd kv)) = member_text"
    by (simp add: member_text_def fun_eq_iff)
  ultimately show ?case
    by (simp add: NODE_IPC_DELIMITER_def)
qed (simp_all add: Number_toString_no_delim QuoteJSONString_no_delim, simp_all add: NODE_IPC_DELIMITER_def)

lemma split_no_delim: "d \<notin> set f \<Longrightarrow> split d f = [f]"
  by (induction f) auto

lemma split_append: "d \<notin> set f \<Longrightarrow> split d (f @ d # rest) = f # split d rest"
  by (induction f) auto

lemma split_pieces:
  "(\<And>p. p \<in> set ps \<Longrightarrow> d \<notin> set p) \<Longrightarrow> split d (concat (map (\<lambda>p. p @ [d]) ps) @ rest) = ps @ split d rest"
  by (induction ps) (simp_all add: split_append)

lemma rtrim_spaces: "list_all is_js_space t \<Longrightarrow> rtrim (x @ t) = rtrim x"
  by (induction t rule: rev_induct) (simp_all add: rtrim_def)

lemma rtrim_append: "\<not> list_all is_js_space t \<Longrightarrow> rtrim (x @ t) = x @ rtrim t"
proof (induction t rule: rev_induct)
  case Nil
  then show ?case by simp
next
  case (snoc c t)
  then show ?case
    by (cases "is_js_space c") (simp_all add: rtrim_def)
qed

lemma rtrim_last: "x \<noteq> [] \<Longrightarrow> \<not> is_js_space (last x) \<Longrightarrow> rtrim x = x"
  by (cases x rule: rev_cases) (simp_all add: rtrim_def)

lemma trim_rtrim: "x \<noteq> [] \<Longrightarrow> \<not> is_js_space (hd x) \<Longrightarrow> trim (x @ t) = rtrim (x @ t)"
  by (cases x) (simp_all add: trim_def rtrim_def)

lemma object_text:
  "JSON_stringify (JObj kvs) \<noteq> []"
  "hd (JSON_stringify (JObj kvs)) = CHR ''{''"
  "last (JSON_stringify (JObj kvs)) = CHR ''}''"
  by simp_all

lemma frame_text_ends:
  "frame_text r \<noteq> []" "\<not> is_js_space (hd (frame_text r))" "\<not> is_js_space (last (frame_text r))"
  "NODE_IPC_DELIMITER \<notin> set (frame_text r)"
  using JSON_stringify_no_delim [of "envelope_json r"]
  by (simp_all add: frame_text_def envelope_json_def is_js_space_def)

lemma wire_pieces: "wire rs = concat (map (\<lambda>p. p @ [NODE_IPC_DELIMITER]) (map frame_text rs))"
  by (simp add: wire_def framed_def frame_text_def comp_def)

lemma wire_snoc: "wire (rs @ [r]) = wire rs @ frame_text r @ [NODE_IPC_DELIMITER]"
  by (simp add: wire_def framed_def frame_text_def)

lemma wire_hd: "rs \<noteq> [] \<Longrightarrow> wire rs \<noteq> [] \<and> \<not> is_js_space (hd (wire rs))"
  using frame_text_ends(1,2) by (cases rs) (simp_all add: wire_pieces)

text \<open>
  The events of a read that begins with whole frames: white space behind them is trimmed
  away with the last delimiter; any other text behind them is trimmed at its end and split.
\<close>

lemma frames_wire_tail:
  assumes "rs \<noteq> []"
  shows "frames (wire rs @ t)
           = map frame_text rs
             @ (if list_all is_js_space t then [] else split NODE_IPC_DELIMITER (rtrim t))"
proof -
  from assms obtain rs' r where rs: "rs = rs' @ [r]"
    by (cases rs rule: rev_cases) auto
  have nd: "NODE_IPC_DELIMITER \<notin> set p" if "p \<in> set (map frame_text rs')" for p
    using that frame_text_ends(4) by auto
  have tr: "trim (wire rs @ t) = rtrim (wire rs @ t)"
    using wire_hd [OF assms] by (intro trim_rtrim) simp_all
  show ?thesis
  proof (cases "list_all is_js_space t")
    case True
    have "list_all is_js_space (NODE_IPC_DELIMITER # t)"
      using True by (simp add: is_js_space_def NODE_IPC_DELIMITER_def)
    from rtrim_spaces [OF this, of "wire rs' @ frame_text r"]
    have "rtrim (wire rs @ t) = rtrim (wire rs' @ frame_text r)"
      by (simp add: rs wire_snoc)
    also have "\<dots> = wire rs' @ frame_text r"
      using frame_text_ends(1,3) [of r] by (intro rtrim_last) simp_all
    finally have "frames (wire rs @ t) = split NODE_IPC_DELIMITER (wire rs' @ frame_text r)"
      by (simp add: frames_def tr)
    also have "\<dots> = map frame_text rs' @ split NODE_IPC_DELIMITER (frame_text r)"
      unfolding wire_pieces using nd by (rule split_pieces)
    finally show ?thesis
      using True frame_text_ends(4) [of r] by (simp add: rs split_no_delim)
  next
    case False
    have nd': "NODE_IPC_DELIMITER \<notin> set p" if "p \<in> set (map frame_text rs)" for p
      using that frame_text_ends(4) by auto
    from rtrim_append [OF False] have "frames (wire rs @ t) = split NODE_IPC_DELIMITER (wire rs @ rtrim t)"
      by (simp add: frames_def tr)
    also have "\<dots> = map frame_text rs @ split NODE_IPC_DELIMITER (rtrim t)"
      unfolding wire_pieces using nd' by (rule split_pieces)
    finally show ?thesis
      using False by simp
  qed
qed


lemma decode_envelope:
  assumes "t_type r \<in> set [''message'', ''malformedRequest'', ''error'', ''stream'']"
    and "t_data r \<noteq> JNull" "representable (t_data r)"
  shows "decode_event (frame_text r) = Inr r"
proof -
  have "representable (envelope_json r)"
    using assms(3) by (simp add: envelope_json_def)
  then have "JSON_parse (JSON_stringify (envelope_json r)) = Some (envelope_json r)"
    by (rule JSON_parse_stringify)
  moreover have "TcpResponseSchema (envelope_json r) = Validation (Some r) None"
    using assms(1,2) by (simp add: TcpResponseSchema_def envelope_json_def)
  ultimately show ?thesis
    by (simp add: decode_event_def frame_text_def)
qed

lemma deliver_no_error:
  "t_type r = ''message'' \<or> t_type r = ''stream'' \<Longrightarrow> deliver deps r s = (None, dispatched deps r s)"
  by (cases "client (dispatched deps r s)")
     (auto simp: deliver_def dispatched_def dispatch_def client_emit_def)

lemma decode_well_formed:
  "well_formed r \<Longrightarrow> decode_event (frame_text r) = Inr r \<and> (t_type r = ''message'' \<or> t_type r = ''stream'')"
  by (auto simp: well_formed_def intro!: decode_envelope)

lemma onData_events_delivered:
  assumes "\<And>r. r \<in> set rs \<Longrightarrow> well_formed r"
  shows "onData_events deps (map frame_text rs @ evs) s
           = onData_events deps evs (foldl (\<lambda>st r. dispatched deps r st) s rs)"
  using assms by (induction rs arbitrary: s) (simp_all add: deliver_no_error decode_well_formed)

lemma onData_wire_tail:
  assumes "rs \<noteq> []" "\<And>r. r \<in> set rs \<Longrightarrow> well_formed r"
  shows "onData deps (wire rs @ t) s
           = onData_events deps (if list_all is_js_space t then [] else split NODE_IPC_DELIMITER (rtrim t))
               (foldl (\<lambda>st r. dispatched deps r st) s rs)"
  using onData_events_delivered [of rs deps _ s, OF assms(2)]
  by (simp add: onData_def frames_wire_tail [OF assms(1)])

lemma onClientData_wire:
  assumes "rs \<noteq> []" "\<And>r. r \<in> set rs \<Longrightarrow> well_formed r"
  shows "onClientData deps (wire rs) s = foldl (\<lambda>st r. dispatched deps r st) s rs"
  using onData_wire_tail [OF assms, of deps "[]" s] by (simp add: onClientData_def)


lemmas run_defs = run_def connect_def onConnect_def client_on_def request_def Let_def send_def
  client_write_def IronfishTcpClient_def listening_def


section \<open>The claims\<close>

subsection \<open>Requests and the connection state\<close>

text \<open>
  The guard of \<open>request()\<close> is \<open>Assert.isNotNull(this.client, 'Connect first using connect()')\<close>:
  the call is refused exactly when the handle \<open>this.client\<close> is \<open>null\<close>, and
  \<open>isConnected\<close> is not read. When the handle is there, the call takes the next message
  id, records the Pending Request under it with the route, and leaves \<open>isConnected\<close> as
  it was.
\<close>

lemma request_guard:
  "(client s = None \<longrightarrow> request route data options s = Inl (AssertionError ''Connect first using connect()''))
   \<and> (client s \<noteq> None \<longrightarrow>
        (\<exists>s'. request route data options s = Inr (messageIds s + 1, s')
              \<and> (\<exists>p. map_of (pending s') (messageIds s + 1) = Some p \<and> type p = route)
              \<and> isConnected s' = isConnected s))"
  by (auto simp: request_def Let_def send_def client_write_def update_conv' split: option.splits)

text \<open>
  The constructor of the TCP client makes the socket and nothing takes it away, so the guard
  never fires: in every state the TCP client reaches, connected or not, \<open>request()\<close>
  returns a response and records a Pending Request.
\<close>

lemma request_never_refused:
  "\<exists>i s'. request route data options (run deps (IronfishTcpClient h p) evs) = Inr (i, s')
          \<and> map_of (pending s') i \<noteq> None"
  using reachable_client [of deps h p evs] request_guard [of "run deps (IronfishTcpClient h p) evs" route data options]
  by auto

text \<open>
  Claim C2 fails on the code. A TCP client fresh from its constructor is not connected;
  \<open>request('getStatus')\<close> does not throw "Connect first using connect()": it returns the
  response of request 1, records the Pending Request with id 1 and writes the message to the
  socket, which is not connected. The same happens after the socket has closed.
\<close>

theorem request_before_connect_accepted:
  "\<not> isConnected (IronfishTcpClient ''localhost'' 8020)
   \<and> \<not> isl (request ''getStatus'' None Undefined (IronfishTcpClient ''localhost'' 8020))
   \<and> fst (projr (request ''getStatus'' None Undefined (IronfishTcpClient ''localhost'' 8020))) = 1
   \<and> map fst (pending (snd (projr (request ''getStatus'' None Undefined (IronfishTcpClient ''localhost'' 8020))))) = [1]
   \<and> map_option written
        (client (snd (projr (request ''getStatus'' None Undefined (IronfishTcpClient ''localhost'' 8020)))))
       = Some [framed (request_message 1 ''getStatus'' None)]
   \<and> \<not> isConnected (run spec_deps (IronfishTcpClient ''localhost'' 8020) [Connect SocketConnect, Close])
   \<and> \<not> isl (request ''getStatus'' None Undefined
              (run spec_deps (IronfishTcpClient ''localhost'' 8020) [Connect SocketConnect, Close]))"
  by (simp add: run_defs onClientClose_def client_off_def)

subsection \<open>Settlement\<close>

lemma consistent_fired:
  assumes c: "consistent s" and p: "promises s i = Some q" and q: "q \<noteq> Pending"
  shows "fired i q s"
proof -
  from c have t: "table_ok s" and hp: "heap_ok s" and tr: "trace_ok s"
    by (simp_all add: consistent_def)
  have "map_of (pending s) i = None"
    using table_okD(2) [OF t, of i] p q by (cases "map_of (pending s) i") auto
  moreover have "count_list (map fst (settled s)) i = 1"
    using trace_okD(1) [OF tr, of i] p q by simp
  moreover have "\<exists>st. streams s i = Some st \<and> st_closed st"
    using heap_okD(3) [OF hp p] heap_okD(4) [OF hp p q] by auto
  moreover have "\<forall>t. timers s i = Some t \<longrightarrow> \<not> t_active t"
    using heap_okD(6) [OF hp p q] by blast
  ultimately show ?thesis
    using p q settled_in_trace [OF c p q] by (simp add: fired_def)
qed

lemma resolve_fires:
  assumes c: "consistent s" and e: "map_of (pending s) i = Some e"
  shows "fired i (Fulfilled v) (pending_resolve e v s)"
proof (rule consistent_fired)
  show "consistent (pending_resolve e v s)"
    by (rule consistent_resolve [OF c e])
  show "promises (pending_resolve e v s) i = Some (Fulfilled v)"
    using consistent_entry(1,4) [OF c e] by (simp add: pending_resolve_def promise_settle_def)
qed simp

lemma reject_fires:
  assumes c: "consistent s" and e: "map_of (pending s) i = Some e"
  shows "fired i (Rejected x) (pending_reject e x s)"
proof (rule consistent_fired)
  show "consistent (pending_reject e x s)"
    by (rule consistent_reject [OF c e])
  show "promises (pending_reject e x s) i = Some (Rejected x)"
    using consistent_entry(1,4) [OF c e] by (simp add: pending_reject_def promise_settle_def)
qed simp

lemma timer_fires:
  assumes c: "consistent s" and e: "map_of (pending s) i = Some e" and tm: "timers s i = Some tm"
  shows "fired i (Rejected (RequestTimeoutError i (t_ms tm) (t_route tm))) (timerFires i s)"
proof (rule consistent_fired)
  from c have t: "table_ok s"
    by (simp add: consistent_def)
  from table_okD(4) [OF t e tm] have act: "t_active tm"
    by simp
  show "consistent (timerFires i s)"
    by (rule consistent_timerFires [OF c])
  show "promises (timerFires i s) i = Some (Rejected (RequestTimeoutError i (t_ms tm) (t_route tm)))"
    using consistent_entry(1,4) [OF c e] e tm act
    by (simp add: timerFires_def onTimeout_def Let_def pending_reject_def promise_settle_def)
qed simp

lemma handleEnd_eq:
  assumes "v_result (IpcResponseSchema deps data) = Some res" "map_of (pending s) (r_id res) = Some e"
  shows "handleEnd deps data s =
           Inr (if isResponseError deps (r_status res) then
                  pending_reject e
                    (case IpcErrorSchema deps (r_data res) of
                       Validation (Some errorBody) _ \<Rightarrow>
                         RequestError (response e) (e_code errorBody) (e_message errorBody) (e_stack errorBody)
                     | Validation None (Some errorError) \<Rightarrow> errorError
                     | Validation None None \<Rightarrow> Raw data)
                    (s\<lparr>statuses := (statuses s)(response e \<mapsto> r_status res)\<rparr>)
                else pending_resolve e (r_data res) (s\<lparr>statuses := (statuses s)(response e \<mapsto> r_status res)\<rparr>))"
  using assms
  by (cases "IpcResponseSchema deps data"; cases "IpcErrorSchema deps (r_data res)")
     (auto simp: handleEnd_def Let_def split: option.splits)

lemma message_fires:
  assumes c: "consistent s" and e: "map_of (pending s) i = Some e"
      and v: "v_result (IpcResponseSchema deps data) = Some res" and i: "r_id res = i"
  shows "\<exists>q. fired i q (onMessage deps data s)
           \<and> (if isResponseError deps (r_status res) then \<exists>x. q = Rejected x else q = Fulfilled (r_data res))"
proof -
  let ?s1 = "s\<lparr>statuses := (statuses s)(response e \<mapsto> r_status res)\<rparr>"
  have c1: "consistent ?s1" and e1: "map_of (pending ?s1) i = Some e"
    using c e by simp_all
  from handleEnd_eq [OF v, of s e] e i
  consider x where "isResponseError deps (r_status res)" "onMessage deps data s = pending_reject e x ?s1"
    | "\<not> isResponseError deps (r_status res)" "onMessage deps data s = pending_resolve e (r_data res) ?s1"
    by (cases "isResponseError deps (r_status res)") (auto simp: onMessage_def)
  then show ?thesis
  proof cases
    case 1
    with reject_fires [OF c1 e1, of x] show ?thesis
      by auto
  next
    case 2
    with resolve_fires [OF c1 e1, of "r_data res"] show ?thesis
      by auto
  qed
qed

lemma disconnect_fires:
  assumes c: "consistent s" and cl: "client s \<noteq> None" and e: "map_of (pending s) i = Some e"
  shows "\<exists>s'. onDisconnect s = Inr s' \<and> fired i (Rejected (ConnectionLostError (type e))) s'"
proof -
  define s2 where "s2 = client_off ''error'' ''onClientError''
             (client_off ''stream'' ''onStream''
               (client_off ''malformedRequest'' ''onMalformedRequest''
                 (client_off ''message'' ''onMessage''
                   (client_off ''disconnect'' ''onDisconnect'' (s\<lparr>isConnected := False\<rparr>)))))"
  define s' where "s' = (rejected_all s2)\<lparr>pending := [], closes := closes s + 1\<rparr>"
  have r: "onDisconnect s = Inr s'"
    unfolding s'_def s2_def by (rule onDisconnect_eq [OF cl])
  have c': "consistent s'"
    by (rule consistent_onDisconnect [OF c r])
  have f2: "pending s2 = pending s" "settled s2 = settled s"
    by (auto simp: s2_def client_off_def)
  have c2: "consistent s2"
    using c by (simp add: s2_def)
  from rejected_all_consistent(1) [OF c2] have tr: "trace_ok (rejected_all s2)" and t: "table_ok s"
    using c by (simp_all add: consistent_def)
  from e have m: "(i, e) \<in> set (pending s)"
    by (rule map_of_SomeD)
  from table_okD(2) [OF t e] have "messageId e = i"
    by simp
  with m have "(i, Rejected (ConnectionLostError (type e))) \<in> set (settled (rejected_all s2))"
    unfolding rejected_all_def reject_all_settled f2(1) by force
  from trace_okD(2) [OF tr this] have "promises s' i = Some (Rejected (ConnectionLostError (type e)))"
    by (simp add: s'_def)
  from consistent_fired [OF c' this] r show ?thesis
    by simp
qed

text \<open>
  Claim C4. In every state the client reaches, and for every message id \<open>i\<close>:

  \<^item> the request is in the table exactly while its promise is pending, and \<open>resolve\<close> or
    \<open>reject\<close> has been called once if the promise is settled and never otherwise;

  \<^item> while the request is in the table, each of the four paths, when it fires, settles it:
    the entry's \<open>resolve\<close>, the entry's \<open>reject\<close>, the timer's callback and the
    disconnect handler each remove the entry, settle the promise with their outcome by one
    call, close the stream and leave the timer not due; a \<open>message\<close> that matches the
    entry takes the first path or the second;

  \<^item> once the promise is settled, the outcome is the call recorded, the stream is closed
    and the timer is not due, and whatever happens later, a timer, a late message or a
    disconnect, the outcome stays the same, the request stays out of the table and there is
    still one call.

  A request for which none of the paths fires stays pending.
\<close>

theorem settlement_single_fire:
  fixes deps h p evs i
  defines "s \<equiv> run deps (IronfishTcpClient h p) evs"
  shows "(map_of (pending s) i \<noteq> None \<longleftrightarrow> promises s i = Some Pending)
    \<and> count_list (map fst (settled s)) i =
        (case promises s i of None \<Rightarrow> 0 | Some q \<Rightarrow> if q = Pending then 0 else 1)
    \<and> (\<forall>e. map_of (pending s) i = Some e \<longrightarrow>
          (\<forall>v. fired i (Fulfilled v) (pending_resolve e v s))
          \<and> (\<forall>x. fired i (Rejected x) (pending_reject e x s))
          \<and> (\<forall>tm. timers s i = Some tm \<longrightarrow>
                fired i (Rejected (RequestTimeoutError i (t_ms tm) (t_route tm))) (step deps s (TimerFires i)))
          \<and> fired i (Rejected (ConnectionLostError (type e))) (step deps s Disconnect)
          \<and> (\<forall>data res. v_result (IpcResponseSchema deps data) = Some res \<and> r_id res = i \<longrightarrow>
                (\<exists>q. fired i q (onMessage deps data s)
                   \<and> (if isResponseError deps (r_status res) then \<exists>x. q = Rejected x
                       else q = Fulfilled (r_data res)))))
    \<and> (\<forall>q. promises s i = Some q \<and> q \<noteq> Pending \<longrightarrow>
          fired i q s \<and> (\<forall>evs'. promises (run deps s evs') i = Some q \<and> fired i q (run deps s evs')))"
proof -
  have c: "consistent s"
    unfolding s_def by (rule reachable_consistent)
  have cl: "client s \<noteq> None"
    unfolding s_def by (rule reachable_client)
  from c have t: "table_ok s" and hp: "heap_ok s" and tr: "trace_ok s"
    by (simp_all add: consistent_def)
  have a: "map_of (pending s) i \<noteq> None \<longleftrightarrow> promises s i = Some Pending"
    using table_okD(2) [OF t, of i] heap_okD(1) [OF hp, of i] by auto
  have b: "(\<forall>v. fired i (Fulfilled v) (pending_resolve e v s))
          \<and> (\<forall>x. fired i (Rejected x) (pending_reject e x s))
          \<and> (\<forall>tm. timers s i = Some tm \<longrightarrow>
                fired i (Rejected (RequestTimeoutError i (t_ms tm) (t_route tm))) (step deps s (TimerFires i)))
          \<and> fired i (Rejected (ConnectionLostError (type e))) (step deps s Disconnect)
          \<and> (\<forall>data res. v_result (IpcResponseSchema deps data) = Some res \<and> r_id res = i \<longrightarrow>
                (\<exists>q. fired i q (onMessage deps data s)
                   \<and> (if isResponseError deps (r_status res) then \<exists>x. q = Rejected x
                       else q = Fulfilled (r_data res))))"
    if e: "map_of (pending s) i = Some e" for e
  proof -
    from disconnect_fires [OF c cl e]
    have "fired i (Rejected (ConnectionLostError (type e))) (step deps s Disconnect)"
      by auto
    with resolve_fires [OF c e] reject_fires [OF c e] timer_fires [OF c e] message_fires [OF c e]
    show ?thesis
      by simp
  qed
  have d: "fired i q s \<and> (\<forall>evs'. promises (run deps s evs') i = Some q \<and> fired i q (run deps s evs'))"
    if q: "promises s i = Some q" "q \<noteq> Pending" for q
  proof -
    have "promises (run deps s evs') i = Some q \<and> fired i q (run deps s evs')" for evs'
    proof -
      let ?s' = "run deps s evs'"
      have c': "consistent ?s'"
        by (rule consistent_run [OF c])
      then have tr': "trace_ok ?s'"
        by (simp add: consistent_def)
      from settled_in_trace [OF c q] extendsD(1) [OF extends_run [of s deps evs']]
      have "(i, q) \<in> set (settled ?s')"
        by blast
      from trace_okD(2) [OF tr' this] have p': "promises ?s' i = Some q"
        by simp
      with consistent_fired [OF c' p' q(2)] show ?thesis
        by simp
    qed
    with consistent_fired [OF c q] show ?thesis
      by simp
  qed
  show ?thesis
    using a trace_okD(1) [OF tr, of i] b d by blast
qed

text \<open>
  C4 at request 1, made with a timeout of 5000 ms: each of the paths on the pending request,
  and a \<open>message\<close> that resolves it followed by its timer and a disconnect.
\<close>

theorem settlement_single_fire_witness:
  "map_of (pending (run spec_deps (IronfishTcpClient ''localhost'' 8020)
                      [Connect SocketConnect, Request ''getStatus'' None (Ms 5000)])) 1
     = Some \<lparr>response = 1, stream = 1, timeout = Some 1, messageId = 1, type = ''getStatus''\<rparr>
   \<and> fired 1 (Fulfilled (Some (JStr ''ok'')))
        (pending_resolve \<lparr>response = 1, stream = 1, timeout = Some 1, messageId = 1, type = ''getStatus''\<rparr>
           (Some (JStr ''ok''))
           (run spec_deps (IronfishTcpClient ''localhost'' 8020)
              [Connect SocketConnect, Request ''getStatus'' None (Ms 5000)]))
   \<and> fired 1 (Rejected (RequestTimeoutError 1 5000 ''getStatus''))
        (run spec_deps (IronfishTcpClient ''localhost'' 8020)
           [Connect SocketConnect, Request ''getStatus'' None (Ms 5000), TimerFires 1])
   \<and> fired 1 (Rejected (ConnectionLostError ''getStatus''))
        (run spec_deps (IronfishTcpClient ''localhost'' 8020)
           [Connect SocketConnect, Request ''getStatus'' None (Ms 5000), Disconnect])
   \<and> promises (run spec_deps (IronfishTcpClient ''localhost'' 8020)
                 [Connect SocketConnect, Request ''getStatus'' None (Ms 5000),
                  Data (wire [\<lparr>t_type = ''message'',
                               t_data = JObj [(''id'', JNum 1), (''status'', JNum 200), (''data'', JStr ''ok'')]\<rparr>])]) 1
       = Some (Fulfilled (Some (JStr ''ok'')))
   \<and> fired 1 (Fulfilled (Some (JStr ''ok'')))
        (run spec_deps
           (run spec_deps (IronfishTcpClient ''localhost'' 8020)
              [Connect SocketConnect, Request ''getStatus'' None (Ms 5000),
               Data (wire [\<lparr>t_type = ''message'',
                            t_data = JObj [(''id'', JNum 1), (''status'', JNum 200), (''data'', JStr ''ok'')]\<rparr>])])
           [TimerFires 1, Disconnect])"
proof -
  let ?evs = "[Connect SocketConnect, Request ''getStatus'' None (Ms 5000)]"
  let ?s = "run spec_deps (IronfishTcpClient ''localhost'' 8020) ?evs"
  let ?e = "\<lparr>response = 1, stream = 1, timeout = Some 1, messageId = 1, type = ''getStatus''\<rparr>"
  let ?m = "\<lparr>t_type = ''message'',
             t_data = JObj [(''id'', JNum 1), (''status'', JNum 200), (''data'', JStr ''ok'')]\<rparr>"
  let ?evs2 = "?evs @ [Data (wire [?m])]"
  let ?s2 = "run spec_deps (IronfishTcpClient ''localhost'' 8020) ?evs2"
  have e: "map_of (pending ?s) 1 = Some ?e"
    and tm: "timers ?s 1 = Some \<lparr>t_ms = 5000, t_route = ''getStatus'', t_active = True\<rparr>"
    and li: "listening ''data'' ''onClientData'' ?s"
    by (simp_all add: run_defs)
  have wf: "well_formed ?m"
    by (simp add: well_formed_def)
  have "?s2 = onClientData spec_deps (wire [?m]) ?s"
    using li by (simp add: run_def)
  also have "\<dots> = dispatched spec_deps ?m ?s"
    using onClientData_wire [of "[?m]" spec_deps ?s] wf by simp
  also have "\<dots> = onMessage spec_deps (t_data ?m) ?s"
    by (simp add: dispatched_eq)
  finally have s2: "?s2 = onMessage spec_deps (t_data ?m) ?s" .
  have v: "v_result (IpcResponseSchema spec_deps (t_data ?m))
             = Some \<lparr>r_id = 1, r_status = 200, r_data = Some (JStr ''ok'')\<rparr>"
    by (simp add: spec_deps_def spec_IpcResponseSchema_def get_number_def)
  have nf: "\<not> isResponseError spec_deps 200"
    by (simp add: spec_deps_def)
  have ri: "r_id \<lparr>r_id = 1, r_status = 200, r_data = Some (JStr ''ok'')\<rparr> = 1"
    by simp
  note T = settlement_single_fire [where i = 1 and deps = spec_deps and h = "''localhost''" and p = 8020
             and evs = ?evs]
  note C = T [THEN conjunct2, THEN conjunct2, THEN conjunct1, rule_format, OF e]
  note 1 = C [THEN conjunct1, rule_format, of "Some (JStr ''ok'')"]
  from C [THEN conjunct2, THEN conjunct2, THEN conjunct1, rule_format, OF tm]
  have 2: "fired 1 (Rejected (RequestTimeoutError 1 5000 ''getStatus''))
        (run spec_deps (IronfishTcpClient ''localhost'' 8020)
           [Connect SocketConnect, Request ''getStatus'' None (Ms 5000), TimerFires 1])"
    by (simp add: run_def)
  from C [THEN conjunct2, THEN conjunct2, THEN conjunct2, THEN conjunct1]
  have 3: "fired 1 (Rejected (ConnectionLostError ''getStatus''))
        (run spec_deps (IronfishTcpClient ''localhost'' 8020)
           [Connect SocketConnect, Request ''getStatus'' None (Ms 5000), Disconnect])"
    by (simp add: run_def)
  from C [THEN conjunct2, THEN conjunct2, THEN conjunct2, THEN conjunct2, rule_format, OF conjI [OF v ri]]
  obtain q where q: "fired 1 q (onMessage spec_deps (t_data ?m) ?s)"
      "if isResponseError spec_deps (r_status \<lparr>r_id = 1, r_status = 200, r_data = Some (JStr ''ok'')\<rparr>)
       then \<exists>x. q = Rejected x
       else q = Fulfilled (r_data \<lparr>r_id = 1, r_status = 200, r_data = Some (JStr ''ok'')\<rparr>)"
    by blast
  from q(2) nf have "q = Fulfilled (Some (JStr ''ok''))"
    by simp
  with q(1) have "promises (onMessage spec_deps (t_data ?m) ?s) 1 = Some (Fulfilled (Some (JStr ''ok'')))"
    by (simp add: fired_def)
  then have 4: "promises ?s2 1 = Some (Fulfilled (Some (JStr ''ok'')))"
    by (simp only: s2)
  have nP: "Fulfilled (Some (JStr ''ok'')) \<noteq> Pending"
    by simp
  note D = settlement_single_fire [where i = 1 and deps = spec_deps and h = "''localhost''" and p = 8020
             and evs = ?evs2, THEN conjunct2, THEN conjunct2, THEN conjunct2, rule_format, OF conjI [OF 4 nP]]
  note 5 = D [THEN conjunct2, rule_format, of "[TimerFires 1, Disconnect]", THEN conjunct2]
  from e 1 2 3 4 5 show ?thesis
    by simp
qed

subsection \<open>Incoming envelopes\<close>

text \<open>
  Claim C6. A \<open>stream\<close> or \<open>message\<close> payload that passes its schema and whose id has
  no entry in the table is dropped: \<open>handleStream\<close> and \<open>handleEnd\<close> return without
  an error, and the client is left exactly as it was, so nothing is raised, no promise is
  settled and no stream is written. The loop of \<open>onData\<close> goes on to the next event.
\<close>

theorem unmatched_envelope_dropped:
  "(v_result (IpcStreamSchema deps sdata) = Some sres \<and> map_of (pending s) (s_id sres) = None
      \<longrightarrow> handleStream deps sdata s = Inr s \<and> onStream deps sdata s = s
          \<and> deliver deps \<lparr>t_type = ''stream'', t_data = sdata\<rparr> s = (None, s))
   \<and> (v_result (IpcResponseSchema deps mdata) = Some mres \<and> map_of (pending s) (r_id mres) = None
      \<longrightarrow> handleEnd deps mdata s = Inr s \<and> onMessage deps mdata s = s
          \<and> deliver deps \<lparr>t_type = ''message'', t_data = mdata\<rparr> s = (None, s))"
proof -
  have "handleStream deps sdata s = Inr s"
    if "v_result (IpcStreamSchema deps sdata) = Some sres" "map_of (pending s) (s_id sres) = None"
    using that by (cases "IpcStreamSchema deps sdata") (auto simp: handleStream_def)
  moreover have "handleEnd deps mdata s = Inr s"
    if "v_result (IpcResponseSchema deps mdata) = Some mres" "map_of (pending s) (r_id mres) = None"
    using that by (cases "IpcResponseSchema deps mdata") (auto simp: handleEnd_def)
  ultimately show ?thesis
    by (simp add: onStream_def onMessage_def deliver_no_error dispatched_eq)
qed

text \<open>C6 at a request that has timed out, and a \<open>stream\<close> and a \<open>message\<close> payload for it that come late.\<close>

theorem unmatched_envelope_dropped_witness:
  "v_result (IpcStreamSchema spec_deps (JObj [(''id'', JNum 1), (''data'', JStr ''late'')]))
      = Some \<lparr>s_id = 1, s_data = Some (JStr ''late'')\<rparr>
   \<and> map_of (pending (run spec_deps (IronfishTcpClient ''localhost'' 8020)
         [Connect SocketConnect, Request ''getStatus'' None (Ms 5000), TimerFires 1])) 1 = None
   \<and> onStream spec_deps (JObj [(''id'', JNum 1), (''data'', JStr ''late'')])
         (run spec_deps (IronfishTcpClient ''localhost'' 8020)
            [Connect SocketConnect, Request ''getStatus'' None (Ms 5000), TimerFires 1])
       = run spec_deps (IronfishTcpClient ''localhost'' 8020)
            [Connect SocketConnect, Request ''getStatus'' None (Ms 5000), TimerFires 1]
   \<and> v_result (IpcResponseSchema spec_deps (JObj [(''id'', JNum 1), (''status'', JNum 200), (''data'', JNull)]))
      = Some \<lparr>r_id = 1, r_status = 200, r_data = Some JNull\<rparr>
   \<and> onMessage spec_deps (JObj [(''id'', JNum 1), (''status'', JNum 200), (''data'', JNull)])
         (run spec_deps (IronfishTcpClient ''localhost'' 8020)
            [Connect SocketConnect, Request ''getStatus'' None (Ms 5000), TimerFires 1])
       = run spec_deps (IronfishTcpClient ''localhost'' 8020)
            [Connect SocketConnect, Request ''getStatus'' None (Ms 5000), TimerFires 1]"
proof -
  let ?s = "run spec_deps (IronfishTcpClient ''localhost'' 8020)
            [Connect SocketConnect, Request ''getStatus'' None (Ms 5000), TimerFires 1]"
  have 1: "v_result (IpcStreamSchema spec_deps (JObj [(''id'', JNum 1), (''data'', JStr ''late'')]))
      = Some \<lparr>s_id = 1, s_data = Some (JStr ''late'')\<rparr>"
    by (simp add: spec_deps_def spec_IpcStreamSchema_def get_number_def)
  have 2: "v_result (IpcResponseSchema spec_deps (JObj [(''id'', JNum 1), (''status'', JNum 200), (''data'', JNull)]))
      = Some \<lparr>r_id = 1, r_status = 200, r_data = Some JNull\<rparr>"
    by (simp add: spec_deps_def spec_IpcResponseSchema_def get_number_def)
  have 3: "map_of (pending ?s) 1 = None"
    by (simp add: run_defs timerFires_def onTimeout_def pending_reject_def)
  from unmatched_envelope_dropped [of spec_deps "JObj [(''id'', JNum 1), (''data'', JStr ''late'')]"
          "\<lparr>s_id = 1, s_data = Some (JStr ''late'')\<rparr>" ?s
          "JObj [(''id'', JNum 1), (''status'', JNum 200), (''data'', JNull)]"
          "\<lparr>r_id = 1, r_status = 200, r_data = Some JNull\<rparr>"] 1 2 3
  show ?thesis
    by simp
qed

text \<open>
  Claim C7. A \<open>message\<close> payload that passes its schema and whose id has a pending
  entry settles that request and takes it out of the table. If the status indicates
  failure: with a decoded error body the request is rejected with a \<open>RequestError\<close> of
  the response, the code, the message and the stack; with a decode error it is rejected
  with that error; with neither it is rejected with the payload itself. Otherwise it is
  resolved with the payload's data.
\<close>

theorem handleEnd_matched:
  assumes "v_result (IpcResponseSchema deps data) = Some res"
      and "map_of (pending s) (r_id res) = Some p"
      and "promises s (messageId p) = Some Pending"
  shows "\<exists>s'. handleEnd deps data s = Inr s'
           \<and> map_of (pending s') (messageId p) = None
           \<and> promises s' (messageId p) = Some
               (if isResponseError deps (r_status res) then
                  (case IpcErrorSchema deps (r_data res) of
                     Validation (Some errorBody) _ \<Rightarrow>
                       Rejected (RequestError (response p) (e_code errorBody) (e_message errorBody) (e_stack errorBody))
                   | Validation None (Some errorError) \<Rightarrow> Rejected errorError
                   | Validation None None \<Rightarrow> Rejected (Raw data))
                else Fulfilled (r_data res))"
  using assms
  by (cases "IpcResponseSchema deps data"; cases "IpcErrorSchema deps (r_data res)")
     (auto simp: handleEnd_def Let_def pending_reject_def pending_resolve_def promise_settle_def
           delete_conv' split: option.splits)

text \<open>C7 at a failure status with an error body, for request 1 of a connected client.\<close>

theorem handleEnd_matched_witness:
  "\<exists>s'. handleEnd spec_deps
           (JObj [(''id'', JNum 1), (''status'', JNum 400),
                  (''data'', JObj [(''code'', JStr ''E''), (''message'', JStr ''bad'')])])
           (run spec_deps (IronfishTcpClient ''localhost'' 8020)
              [Connect SocketConnect, Request ''getStatus'' None (Ms 5000)]) = Inr s'
        \<and> map_of (pending s') 1 = None
        \<and> promises s' 1 = Some (Rejected (RequestError 1 ''E'' ''bad'' None))"
proof -
  let ?s = "run spec_deps (IronfishTcpClient ''localhost'' 8020)
              [Connect SocketConnect, Request ''getStatus'' None (Ms 5000)]"
  let ?p = "\<lparr>response = 1, stream = 1, timeout = Some 1, messageId = 1, type = ''getStatus''\<rparr>"
  let ?d = "JObj [(''id'', JNum 1), (''status'', JNum 400),
                  (''data'', JObj [(''code'', JStr ''E''), (''message'', JStr ''bad'')])]"
  let ?r = "\<lparr>r_id = 1, r_status = 400,
             r_data = Some (JObj [(''code'', JStr ''E''), (''message'', JStr ''bad'')])\<rparr>"
  have 1: "v_result (IpcResponseSchema spec_deps ?d) = Some ?r"
    by (simp add: spec_deps_def spec_IpcResponseSchema_def get_number_def)
  have 2: "map_of (pending ?s) (r_id ?r) = Some ?p"
    by (simp add: run_def connect_def onConnect_def client_on_def request_def Let_def send_def
          client_write_def IronfishTcpClient_def)
  have 3: "promises ?s (messageId ?p) = Some Pending"
    by (simp add: run_def connect_def onConnect_def client_on_def request_def Let_def send_def
          client_write_def IronfishTcpClient_def)
  from handleEnd_matched [OF 1 2 3] show ?thesis
    by (simp add: spec_deps_def spec_IpcErrorSchema_def get_string_def)
qed

subsection \<open>Connecting\<close>

text \<open>
  Claim C8. When the socket reports an error that is a connect-refused error, \<open>connect()\<close>
  rejects with \<open>ConnectionRefusedError\<close> and \<open>tryConnect()\<close> returns \<open>false\<close>, leaving
  the client as it was. \<open>ConnectionRefusedError\<close> is a \<open>ConnectionError\<close> and a plain
  socket error is not. \<open>tryConnect()\<close> returns \<open>true\<close> exactly when \<open>connect()\<close>
  succeeds, and a rejection of \<open>connect()\<close> that is not a \<open>ConnectionError\<close> is thrown
  on unchanged.
\<close>

theorem connect_refused:
  "(isConnectRefusedError deps err \<longrightarrow>
      connect deps (SocketError err) s = Inl ConnectionRefusedError
      \<and> tryConnect deps (SocketError err) s = Inr (False, s))
   \<and> instanceof_ConnectionError ConnectionRefusedError
   \<and> \<not> instanceof_ConnectionError (SystemError code)
   \<and> ((\<exists>s'. tryConnect deps outcome s = Inr (True, s')) \<longleftrightarrow> (\<exists>s'. connect deps outcome s = Inr s'))
   \<and> (connect deps outcome s = Inl e \<and> \<not> instanceof_ConnectionError e \<longrightarrow> tryConnect deps outcome s = Inl e)"
  by (auto simp: connect_def tryConnect_def tryConnect_of_def instanceof_ConnectionError_def
           split: connect_outcome.splits sum.splits if_splits)

text \<open>C8 at \<open>ECONNREFUSED\<close> and at \<open>EPIPE\<close>.\<close>

theorem connect_refused_witness:
  "isConnectRefusedError spec_deps (SystemError ''ECONNREFUSED'')
   \<and> connect spec_deps (SocketError (SystemError ''ECONNREFUSED'')) (IronfishTcpClient ''localhost'' 8020)
       = Inl ConnectionRefusedError
   \<and> tryConnect spec_deps (SocketError (SystemError ''ECONNREFUSED'')) (IronfishTcpClient ''localhost'' 8020)
       = Inr (False, IronfishTcpClient ''localhost'' 8020)
   \<and> connect spec_deps (SocketError (SystemError ''EPIPE'')) (IronfishTcpClient ''localhost'' 8020)
       = Inl (SystemError ''EPIPE'')
   \<and> \<not> instanceof_ConnectionError (SystemError ''EPIPE'')
   \<and> tryConnect spec_deps (SocketError (SystemError ''EPIPE'')) (IronfishTcpClient ''localhost'' 8020)
       = Inl (SystemError ''EPIPE'')"
  using connect_refused [of spec_deps "SystemError ''ECONNREFUSED''" "IronfishTcpClient ''localhost'' 8020"
          "''EPIPE''" "SocketError (SystemError ''EPIPE'')" "SystemError ''EPIPE''"]
  by (simp add: spec_deps_def connect_def)

text \<open>
  Claim C10. A failed \<open>connect()\<close> rejects with \<open>ConnectionRefusedError\<close> when the
  socket error is a connect-refused error and also when it is a no-entity error, and with
  the socket error itself in every other case; so \<open>tryConnect()\<close> returns \<open>false\<close>
  for a no-entity error too.
\<close>

theorem connect_error_classes:
  "connect deps (SocketError err) s =
     Inl (if isConnectRefusedError deps err \<or> isNoEntityError deps err then ConnectionRefusedError else err)
   \<and> (isNoEntityError deps err \<longrightarrow> tryConnect deps (SocketError err) s = Inr (False, s))"
  by (auto simp: connect_def tryConnect_def tryConnect_of_def instanceof_ConnectionError_def)

text \<open>C10 at \<open>ENOENT\<close>, the error for a local socket path that does not exist.\<close>

theorem connect_error_classes_witness:
  "isNoEntityError spec_deps (SystemError ''ENOENT'')
   \<and> connect spec_deps (SocketError (SystemError ''ENOENT'')) (IronfishTcpClient ''/tmp/ironfish.sock'' 0)
       = Inl ConnectionRefusedError
   \<and> tryConnect spec_deps (SocketError (SystemError ''ENOENT'')) (IronfishTcpClient ''/tmp/ironfish.sock'' 0)
       = Inr (False, IronfishTcpClient ''/tmp/ironfish.sock'' 0)"
  using connect_error_classes [of spec_deps "SystemError ''ENOENT''" "IronfishTcpClient ''/tmp/ironfish.sock'' 0"]
  by (simp add: spec_deps_def)

subsection \<open>Timeouts\<close>

text \<open>
  Claim C5. Let a request be made in a reachable state with a timeout that is not
  \<open>null\<close>, of \<open>T\<close> milliseconds, and let anything happen afterwards. If the request is
  still in the table, its timer is due with the delay \<open>T\<close> and the route of the request;
  when it runs, the request is rejected with a \<open>RequestTimeoutError\<close> of the response,
  \<open>T\<close> and the route, it is out of the table and its stream is closed. If the request is
  no longer in the table, the callback changes nothing, and neither does the timer event.
\<close>

theorem timeout_rejects:
  fixes deps h p evs route data options T evs' i s1
  defines "s \<equiv> run deps (IronfishTcpClient h p) evs"
  assumes r: "request route data options s = Inr (i, s1)"
      and T: "(case options of Undefined \<Rightarrow> timeoutMs s | Null \<Rightarrow> None | Ms t \<Rightarrow> Some t) = Some T"
  defines "s2 \<equiv> run deps s1 evs'"
  shows "(map_of (pending s2) i \<noteq> None \<longrightarrow>
            (\<exists>tm. timers s2 i = Some tm \<and> t_active tm \<and> t_ms tm = T \<and> t_route tm = route)
            \<and> promises (step deps s2 (TimerFires i)) i = Some (Rejected (RequestTimeoutError i T route))
            \<and> map_of (pending (step deps s2 (TimerFires i))) i = None
            \<and> (\<exists>st. streams (step deps s2 (TimerFires i)) i = Some st \<and> st_closed st))
       \<and> (map_of (pending s2) i = None \<longrightarrow>
            onTimeout i T route s2 = s2 \<and> step deps s2 (TimerFires i) = s2)"
proof -
  have c: "consistent s"
    unfolding s_def by (rule reachable_consistent)
  have c1: "consistent s1"
    by (rule consistent_request [OF c r])
  have c2: "consistent s2"
    unfolding s2_def by (rule consistent_run [OF c1])
  then have t2: "table_ok s2" and h2: "heap_ok s2"
    by (simp_all add: consistent_def)
  note f = request_fields [OF r]
  have "timers s1 i = Some \<lparr>t_ms = T, t_route = route, t_active = True\<rparr>" "i \<le> messageIds s1"
    by (simp_all add: f(5,7) T)
  from extendsD(4) [OF extends_run [of s1 deps evs', folded s2_def] this]
  obtain tm where tm: "timers s2 i = Some tm" "t_ms tm = T" "t_route tm = route"
    by auto
  have A: "(\<exists>tm. timers s2 i = Some tm \<and> t_active tm \<and> t_ms tm = T \<and> t_route tm = route)
            \<and> promises (step deps s2 (TimerFires i)) i = Some (Rejected (RequestTimeoutError i T route))
            \<and> map_of (pending (step deps s2 (TimerFires i))) i = None
            \<and> (\<exists>st. streams (step deps s2 (TimerFires i)) i = Some st \<and> st_closed st)"
    if "map_of (pending s2) i \<noteq> None"
  proof -
    from that obtain e where e: "map_of (pending s2) i = Some e"
      by auto
    note en = consistent_entry [OF c2 e]
    from table_okD(4) [OF t2 e tm(1)] have act: "t_active tm"
      by simp
    from en(6) obtain st where st: "streams s2 i = Some st"
      by auto
    have "step deps s2 (TimerFires i)
            = (pending_reject e (RequestTimeoutError i T route) s2)
               \<lparr>timers := (timers (pending_reject e (RequestTimeoutError i T route) s2))(i \<mapsto> tm\<lparr>t_active := False\<rparr>)\<rparr>"
      using tm act e by (simp add: timerFires_def onTimeout_def Let_def)
    then show ?thesis
      using tm act en(1,2,4) st
      by (simp add: pending_reject_def promise_settle_def delete_conv' Stream_close_def)
  qed
  have B: "onTimeout i T route s2 = s2 \<and> step deps s2 (TimerFires i) = s2"
    if n: "map_of (pending s2) i = None"
  proof -
    from heap_okD(5) [OF h2 tm(1)] obtain q where q: "promises s2 i = Some q"
      by auto
    with heap_okD(1) [OF h2, of i] n have "q \<noteq> Pending"
      by auto
    from heap_okD(6) [OF h2 q this tm(1)] have "\<not> t_active tm" .
    with tm n show ?thesis
      by (simp add: onTimeout_def timerFires_def)
  qed
  from A B show ?thesis
    by blast
qed

text \<open>C5 at a request with a timeout of 5000 ms: the timer running while it is pending, and after a disconnect has rejected it.\<close>

theorem timeout_rejects_witness:
  "request ''getStatus'' None (Ms 5000) (run spec_deps (IronfishTcpClient ''localhost'' 8020) [Connect SocketConnect])
     = Inr (1, run spec_deps (IronfishTcpClient ''localhost'' 8020)
                 [Connect SocketConnect, Request ''getStatus'' None (Ms 5000)])
   \<and> map_of (pending (run spec_deps (IronfishTcpClient ''localhost'' 8020)
                 [Connect SocketConnect, Request ''getStatus'' None (Ms 5000)])) 1 \<noteq> None
   \<and> promises (run spec_deps (IronfishTcpClient ''localhost'' 8020)
                 [Connect SocketConnect, Request ''getStatus'' None (Ms 5000), TimerFires 1]) 1
       = Some (Rejected (RequestTimeoutError 1 5000 ''getStatus''))
   \<and> map_of (pending (run spec_deps (IronfishTcpClient ''localhost'' 8020)
                 [Connect SocketConnect, Request ''getStatus'' None (Ms 5000), Disconnect])) 1 = None
   \<and> run spec_deps (IronfishTcpClient ''localhost'' 8020)
         [Connect SocketConnect, Request ''getStatus'' None (Ms 5000), Disconnect, TimerFires 1]
       = run spec_deps (IronfishTcpClient ''localhost'' 8020)
         [Connect SocketConnect, Request ''getStatus'' None (Ms 5000), Disconnect]"
proof -
  let ?c = "IronfishTcpClient ''localhost'' 8020"
  let ?s = "run spec_deps ?c [Connect SocketConnect]"
  let ?s1 = "run spec_deps ?c [Connect SocketConnect, Request ''getStatus'' None (Ms 5000)]"
  have r: "request ''getStatus'' None (Ms 5000) ?s = Inr (1, ?s1)"
    by (simp add: run_def connect_def onConnect_def client_on_def request_def Let_def IronfishTcpClient_def)
  have T: "(case Ms 5000 of Undefined \<Rightarrow> timeoutMs ?s | Null \<Rightarrow> None | Ms t \<Rightarrow> Some t) = Some 5000"
    by simp
  have a: "map_of (pending (run spec_deps ?s1 [])) 1 \<noteq> None"
    by (simp add: run_def connect_def onConnect_def client_on_def request_def Let_def send_def
          client_write_def IronfishTcpClient_def)
  have b: "map_of (pending (run spec_deps ?s1 [Disconnect])) 1 = None"
    by (simp add: run_def connect_def onConnect_def client_on_def request_def Let_def send_def
          client_write_def IronfishTcpClient_def onDisconnect_def client_off_def pending_reject_def)
  from timeout_rejects [OF r T, of "[]"] a timeout_rejects [OF r T, of "[Disconnect]"] b r
  show ?thesis
    by (simp add: run_def)
qed

subsection \<open>Disconnect\<close>

text \<open>
  The inherited handler \<open>onDisconnect\<close> does what claim C1 asks of a disconnect. When it
  runs in a reachable state, every Pending Request in the table is rejected with a
  \<open>ConnectionLostError\<close> of its own route, by one call of \<open>reject\<close>; the promises of all
  other requests are as before; the table is empty, \<open>isConnected\<close> is false and
  \<open>onClose\<close> is emitted once; a second run settles nothing.
\<close>

lemma onDisconnect_rejects_all:
  fixes deps h p evs
  defines "s \<equiv> run deps (IronfishTcpClient h p) evs"
  shows "\<exists>s'. onDisconnect s = Inr s'
     \<and> (\<forall>i r. map_of (pending s) i = Some r \<longrightarrow>
            promises s' i = Some (Rejected (ConnectionLostError (type r)))
            \<and> count_list (map fst (settled s')) i = 1)
     \<and> (\<forall>i. map_of (pending s) i = None \<longrightarrow> promises s' i = promises s i)
     \<and> pending s' = [] \<and> \<not> isConnected s' \<and> closes s' = closes s + 1
     \<and> (\<exists>s''. onDisconnect s' = Inr s'' \<and> settled s'' = settled s' \<and> promises s'' = promises s')"
proof -
  have c: "consistent s"
    unfolding s_def by (rule reachable_consistent)
  have cl: "client s \<noteq> None"
    unfolding s_def by (rule reachable_client)
  define s2 where "s2 = client_off ''error'' ''onClientError''
             (client_off ''stream'' ''onStream''
               (client_off ''malformedRequest'' ''onMalformedRequest''
                 (client_off ''message'' ''onMessage''
                   (client_off ''disconnect'' ''onDisconnect'' (s\<lparr>isConnected := False\<rparr>)))))"
  define s' where "s' = (rejected_all s2)\<lparr>pending := [], closes := closes s + 1\<rparr>"
  have r: "onDisconnect s = Inr s'"
    unfolding s'_def s2_def by (rule onDisconnect_eq [OF cl])
  have f2: "pending s2 = pending s" "promises s2 = promises s" "settled s2 = settled s"
      "client s2 \<noteq> None" "\<not> isConnected s2"
    using cl by (auto simp: s2_def client_off_def)
  have c2: "consistent s2"
    using c by (simp add: s2_def)
  note pv = pending_values [OF c2]
  have A: "promises s' i = Some (Rejected (ConnectionLostError (type e)))
            \<and> count_list (map fst (settled s')) i = 1"
    if e: "map_of (pending s) i = Some e" for i e
    using disconnect_fires [OF c cl e] r by (auto simp: fired_def)
  have B: "promises s' i = promises s i" if n: "map_of (pending s) i = None" for i
  proof -
    from n have "i \<notin> fst ` set (pending s)"
      by (simp add: map_of_eq_None_iff)
    then have "i \<notin> messageId ` set (map snd (pending s2))"
      using pv(1) f2(1) by (metis list.set_map)
    from reject_all_promises_other [OF this, of s2] show ?thesis
      by (simp add: s'_def rejected_all_def f2(2))
  qed
  have C: "pending s' = []" "\<not> isConnected s'" "closes s' = closes s + 1" "client s' \<noteq> None"
    using f2(4,5) by (simp_all add: s'_def rejected_all_def reject_all_frame)
  have D: "\<exists>s''. onDisconnect s' = Inr s'' \<and> settled s'' = settled s' \<and> promises s'' = promises s'"
    using C(1,4) by (auto simp: onDisconnect_def Let_def client_off_def)
  from r A B C(1,2,3) D show ?thesis
    by blast
qed

text \<open>
  Claim C1 fails on the code. The TCP client is told of a disconnect by the socket's
  \<open>close\<close> event, and its handler \<open>onClientClose\<close> does not go through \<open>onDisconnect\<close>,
  which the TCP client never registers. With request 1 pending when the socket closes: the
  client is no longer connected, the request is still in the table, its promise is still
  pending, \<open>reject\<close> has not been called and its stream is open; and a \<open>request()\<close> made
  then, with no \<open>connect()\<close> in between, is not refused but returns the response of
  request 2. On the same state \<open>onDisconnect\<close> rejects request 1 with the
  \<open>ConnectionLostError\<close> of its route and empties the table.
\<close>

theorem socket_close_rejects_nothing:
  "isConnected (run spec_deps (IronfishTcpClient ''localhost'' 8020)
                [Connect SocketConnect, Request ''getStatus'' None Undefined])
   \<and> \<not> isConnected (run spec_deps (IronfishTcpClient ''localhost'' 8020)
                [Connect SocketConnect, Request ''getStatus'' None Undefined, Close])
   \<and> map fst (pending (run spec_deps (IronfishTcpClient ''localhost'' 8020)
                [Connect SocketConnect, Request ''getStatus'' None Undefined, Close])) = [1]
   \<and> promises (run spec_deps (IronfishTcpClient ''localhost'' 8020)
                [Connect SocketConnect, Request ''getStatus'' None Undefined, Close]) 1 = Some Pending
   \<and> settled (run spec_deps (IronfishTcpClient ''localhost'' 8020)
                [Connect SocketConnect, Request ''getStatus'' None Undefined, Close]) = []
   \<and> streams (run spec_deps (IronfishTcpClient ''localhost'' 8020)
                [Connect SocketConnect, Request ''getStatus'' None Undefined, Close]) 1
       = Some \<lparr>st_values = [], st_closed = False\<rparr>
   \<and> \<not> isl (request ''getPeers'' None Undefined
              (run spec_deps (IronfishTcpClient ''localhost'' 8020)
                [Connect SocketConnect, Request ''getStatus'' None Undefined, Close]))
   \<and> fst (projr (request ''getPeers'' None Undefined
              (run spec_deps (IronfishTcpClient ''localhost'' 8020)
                [Connect SocketConnect, Request ''getStatus'' None Undefined, Close]))) = 2
   \<and> promises (run spec_deps (IronfishTcpClient ''localhost'' 8020)
                [Connect SocketConnect, Request ''getStatus'' None Undefined, Disconnect]) 1
       = Some (Rejected (ConnectionLostError ''getStatus''))
   \<and> pending (run spec_deps (IronfishTcpClient ''localhost'' 8020)
                [Connect SocketConnect, Request ''getStatus'' None Undefined, Disconnect]) = []"
  by (simp add: run_defs onClientClose_def onDisconnect_def client_off_def pending_reject_def
        promise_settle_def)

subsection \<open>The wire\<close>






end
